theory Spec2Isabelle
  imports Main "HOL-Library.AList"
begin

section \<open>JavaScript values and the namespace tree\<close>

text \<open>
  The registry of \<^verbatim>\<open>cycligent.js\<close> places every resolved declaration into the global
  object \<^verbatim>\<open>window\<close> under its dotted name. A value of the tree is modelled by its own
  properties, in insertion order. Objects are values here: two paths never share one
  object. Properties that a JavaScript object inherits (from \<^verbatim>\<open>Object.prototype\<close>, or
  the built-in properties of \<^verbatim>\<open>window\<close>) are not part of the model, so path segments
  are names of own properties.

  A function supplied by the application (a definition function, \<^verbatim>\<open>main\<close>, an observer)
  is modelled by what a call of it does to its caller: it returns a value or it throws.
  The constructor functions made by \<^verbatim>\<open>Class.extend\<close> and \<^verbatim>\<open>Interface.extend\<close> are objects
  of kind \<open>ClassCtor\<close> and \<open>InterfaceCtor\<close>; their \<^verbatim>\<open>extend\<close> method and prototype
  belong to the kind and are not listed among the properties.
\<close>

datatype exn = TypeError | RangeError | UserException

datatype kind = Plain | ClassCtor | InterfaceCtor

datatype jsval =
    Undefined
  | Null
  | Boolean bool
  | Num int
  | Str string
  | Fn fbody
  | Obj kind "(string \<times> jsval) list"
and fbody = Returns jsval | Throws

type_synonym props = "(string \<times> jsval) list"

fun truthy :: "jsval \<Rightarrow> bool" where
  "truthy Undefined = False"
| "truthy Null = False"
| "truthy (Boolean b) = b"
| "truthy (Num n) = (n \<noteq> 0)"
| "truthy (Str s) = (s \<noteq> [])"
| "truthy (Fn b) = True"
| "truthy (Obj k ps) = True"

fun nullish :: "jsval \<Rightarrow> bool" where
  "nullish Undefined = True"
| "nullish Null = True"
| "nullish v = False"

text \<open>\<^verbatim>\<open>v[k]\<close> for a value that is neither \<^verbatim>\<open>undefined\<close> nor \<^verbatim>\<open>null\<close>: the own
  property of an object, \<^verbatim>\<open>undefined\<close> on every other value. On \<^verbatim>\<open>undefined\<close> and
  \<^verbatim>\<open>null\<close> the read is a \<^verbatim>\<open>TypeError\<close>.\<close>

fun read_prop :: "jsval \<Rightarrow> string \<Rightarrow> jsval" where
  "read_prop (Obj k ps) key = (case map_of ps key of None \<Rightarrow> Undefined | Some v \<Rightarrow> v)"
| "read_prop v key = Undefined"

definition get_prop :: "jsval \<Rightarrow> string \<Rightarrow> exn + jsval" where
  "get_prop v key = (if nullish v then Inl TypeError else Inr (read_prop v key))"

text \<open>\<^verbatim>\<open>v[k] = x\<close>: a \<^verbatim>\<open>TypeError\<close> on \<^verbatim>\<open>undefined\<close> and \<^verbatim>\<open>null\<close>; the file is not in
  strict mode, so the assignment to a property of a primitive is silently dropped. A
  function of the application has no list of properties here (\<open>Fn\<close> carries only what a
  call does), so a property written to such a function is not kept, where JavaScript
  keeps it. The results below that depend on a write state that the values written to
  are objects (\<open>objects_along\<close>, \<open>passable\<close>).\<close>

fun put :: "jsval \<Rightarrow> string \<Rightarrow> jsval \<Rightarrow> jsval" where
  "put (Obj k ps) key x = Obj k (AList.update key x ps)"
| "put v key x = v"

definition set_prop :: "jsval \<Rightarrow> string \<Rightarrow> jsval \<Rightarrow> exn + jsval" where
  "set_prop v key x = (if nullish v then Inl TypeError else Inr (put v key x))"

text \<open>\<^verbatim>\<open>s.split(".")\<close>: never empty; \<^verbatim>\<open>"".split(".")\<close> is \<^verbatim>\<open>[""]\<close>.\<close>

fun split_dot :: "string \<Rightarrow> string list" where
  "split_dot [] = [[]]"
| "split_dot (c # cs) =
     (if c = CHR ''.'' then [] # split_dot cs
      else (case split_dot cs of [] \<Rightarrow> [[c]] | w # ws \<Rightarrow> (c # w) # ws))"

text \<open>The loop \<^verbatim>\<open>for (...) currentObj = currentObj[split[i]]\<close> of \<^verbatim>\<open>definitionGet\<close>.\<close>

fun get_path :: "jsval \<Rightarrow> string list \<Rightarrow> exn + jsval" where
  "get_path v [] = Inr v"
| "get_path v (k # ks) =
     (case get_prop v k of Inl e \<Rightarrow> Inl e | Inr c \<Rightarrow> get_path c ks)"

text \<open>\<^verbatim>\<open>definitionSet\<close> walks to the parent of the last segment by reference and assigns
  there. On a tree of values the assignment is rebuilt on the way back; nothing is
  written when the walk throws. The value assigned is a copy: in JavaScript the payload
  object of a definition is also still referenced by its queue entry, so what is later
  written below the name shows in the entry, and a second processing of the same entry
  would store it again. No result below processes an entry twice.\<close>

fun set_path :: "jsval \<Rightarrow> string list \<Rightarrow> jsval \<Rightarrow> exn + jsval" where
  "set_path v [] x = Inr v"
| "set_path v [k] x = set_prop v k x"
| "set_path v (k # ks) x =
     (case get_prop v k of
        Inl e \<Rightarrow> Inl e
      | Inr c \<Rightarrow>
          (case set_path c ks x of
             Inl e \<Rightarrow> Inl e
           | Inr c' \<Rightarrow> Inr (put v k c')))"

section \<open>The registry\<close>

datatype log = ConsoleError string | ConsoleInfo string | ConsoleLog string | ConsoleException exn

text \<open>The argument map that \<^verbatim>\<open>cycligent.args\<close> hands to the registration functions. A
  property that was not supplied is \<^verbatim>\<open>undefined\<close>: \<open>None\<close> here, \<open>Undefined\<close> for the
  definition. \<^verbatim>\<open>cycligent.class\<close> has already split and trimmed \<open>implements\<close>.\<close>

record args =
  arg_name :: "string option"
  arg_definition :: jsval
  arg_extends :: "string option"
  arg_implements :: "string list option"
  arg_priority :: "int option"

record config =
  debug_on :: bool
  debug_args_check :: bool
  debug_interfaces_check :: bool
  debug_scripts :: bool
  debug_startup :: bool
  doNotCatchAllExceptionsOnLocalHost :: bool
  startupScript :: string
  waitFor_dom :: bool
  waitFor_page :: bool

record cy =
  window :: props
  classes :: "string \<rightharpoonup> bool"
  interfaces :: "string \<rightharpoonup> bool"
  classesToProcess :: "args option list"
  interfacesToProcess :: "args option list"
  definitionsToProcess :: "args list"
  priorityDefinitions :: "args list"
  console :: "log list"

definition say :: "log \<Rightarrow> cy \<Rightarrow> cy" where
  "say m c = c\<lparr>console := console c @ [m]\<rparr>"

text \<open>A string is truthy when it is supplied and not empty.\<close>

fun given :: "string option \<Rightarrow> bool" where
  "given None = False"
| "given (Some s) = (s \<noteq> [])"

definition definitionGet :: "cy \<Rightarrow> string option \<Rightarrow> exn + jsval" where
  "definitionGet c dottedName =
     (case dottedName of
        None \<Rightarrow> Inr Undefined
      | Some n \<Rightarrow> get_path (Obj Plain (window c)) (split_dot n))"

definition definitionSet :: "cy \<Rightarrow> string option \<Rightarrow> jsval \<Rightarrow> exn option \<times> cy" where
  "definitionSet c dottedName x =
     (case dottedName of
        None \<Rightarrow> (Some TypeError, c)
      | Some n \<Rightarrow>
          (case set_path (Obj Plain (window c)) (split_dot n) x of
             Inr (Obj k ps) \<Rightarrow> (None, c\<lparr>window := ps\<rparr>)
           | Inr _ \<Rightarrow> (None, c)
           | Inl e \<Rightarrow> (Some e, c)))"

text \<open>The namespace walk shared by \<^verbatim>\<open>classMissing\<close>, \<^verbatim>\<open>interfaceMissing\<close> and
  \<^verbatim>\<open>definitionMissing\<close>: the first segment of the parent chain whose value is falsy,
  reported with the path walked so far.\<close>

fun nsMissing :: "jsval \<Rightarrow> string \<Rightarrow> string list \<Rightarrow> exn + string" where
  "nsMissing dependantVar dependantVarName [] = Inr []"
| "nsMissing dependantVar dependantVarName (k # ks) =
     (case get_prop dependantVar k of
        Inl e \<Rightarrow> Inl e
      | Inr v \<Rightarrow>
          if \<not> truthy v then Inr (dependantVarName @ ''.'' @ k)
          else nsMissing v (dependantVarName @ ''.'' @ k) ks)"

definition nameMissing :: "cy \<Rightarrow> string \<Rightarrow> exn + string" where
  "nameMissing c n =
     (let splits = split_dot n in
      if length splits > 1 then nsMissing (Obj Plain (window c)) ''window'' (butlast splits)
      else Inr [])"

text \<open>The loop over \<^verbatim>\<open>args.implements\<close>: the first name that is not a processed interface
  becomes the result and ends the loop.\<close>

fun implementsMissing :: "cy \<Rightarrow> string list \<Rightarrow> string" where
  "implementsMissing c [] = []"
| "implementsMissing c (i # is) =
     (if interfaces c i \<noteq> Some True then i else implementsMissing c is)"

definition classMissing :: "cy \<Rightarrow> args \<Rightarrow> exn + string" where
  "classMissing c a =
     (case arg_name a of
        None \<Rightarrow> Inl TypeError
      | Some n \<Rightarrow>
          (case nameMissing c n of
             Inl e \<Rightarrow> Inl e
           | Inr missing \<Rightarrow>
               (let missing1 =
                      (if missing = [] \<and> given (arg_extends a)
                          \<and> classes c (the (arg_extends a)) \<noteq> Some True
                       then the (arg_extends a) else missing)
                in Inr (if missing1 = [] then
                          (case arg_implements a of
                             None \<Rightarrow> missing1
                           | Some is \<Rightarrow> implementsMissing c is)
                        else missing1))))"

definition interfaceMissing :: "cy \<Rightarrow> args \<Rightarrow> exn + string" where
  "interfaceMissing c a =
     (case arg_name a of
        None \<Rightarrow> Inl TypeError
      | Some n \<Rightarrow>
          (case nameMissing c n of
             Inl e \<Rightarrow> Inl e
           | Inr missing \<Rightarrow>
               Inr (if missing = [] \<and> given (arg_extends a)
                       \<and> interfaces c (the (arg_extends a)) \<noteq> Some True
                    then the (arg_extends a) else missing)))"

definition definitionMissing :: "cy \<Rightarrow> args \<Rightarrow> exn + string" where
  "definitionMissing c a =
     (case arg_name a of
        None \<Rightarrow> Inl TypeError
      | Some n \<Rightarrow> nameMissing c n)"

text \<open>Control flow. A function that changes the registry and may throw returns the
  exception, if any, with the registry as it was when the exception left the function.
  \<open>andThen\<close> runs the rest of a function body after a call that returned normally;
  \<open>withValue\<close> does so after an expression that yields a value or throws.\<close>

definition andThen :: "exn option \<times> 's \<Rightarrow> ('s \<Rightarrow> exn option \<times> 's) \<Rightarrow> exn option \<times> 's" where
  "andThen r f = (case r of (None, s) \<Rightarrow> f s | (Some e, s) \<Rightarrow> (Some e, s))"

definition withValue :: "exn + 'a \<Rightarrow> 's \<Rightarrow> ('a \<Rightarrow> exn option \<times> 's) \<Rightarrow> exn option \<times> 's" where
  "withValue x s f = (case x of Inl e \<Rightarrow> (Some e, s) | Inr v \<Rightarrow> f v)"

section \<open>Classes\<close>

definition word_char :: "char \<Rightarrow> bool" where
  "word_char ch \<longleftrightarrow>
     ch \<in> set (''abcdefghijklmnopqrstuvwxyz'' @ ''ABCDEFGHIJKLMNOPQRSTUVWXYZ'' @ ''0123456789_'')"

text \<open>\<^verbatim>\<open>args.name.match(/\.\w+$/)\<close>: the text after the last dot when it is a non-empty run
  of word characters, the whole name otherwise.\<close>

definition className_of :: "string \<Rightarrow> string" where
  "className_of n =
     (let splits = split_dot n in
      if length splits > 1 \<and> last splits \<noteq> [] \<and> (\<forall>ch \<in> set (last splits). word_char ch)
      then last splits else n)"

text \<open>\<^verbatim>\<open>className.substr(0, 1).search(/[A-Z]/) < 0\<close> is the negation of this.\<close>

definition begins_uppercase :: "string \<Rightarrow> bool" where
  "begins_uppercase s =
     (case s of [] \<Rightarrow> False | ch # _ \<Rightarrow> ch \<in> set ''ABCDEFGHIJKLMNOPQRSTUVWXYZ'')"

definition uppercase_message :: "string \<Rightarrow> string" where
  "uppercase_message n =
     ''Class '' @ [CHR 0x27] @ n @ ''of the expression '' @ [CHR 0x27] @ n @ [CHR 0x27]
       @ '' should begin with an uppercase letter.''"

text \<open>\<^verbatim>\<open>v.extend(...)\<close>: only the constructors made by \<^verbatim>\<open>Class.extend\<close> and
  \<^verbatim>\<open>Interface.extend\<close> carry the method; the call makes a new constructor of the same
  kind. On every other value the call is a \<^verbatim>\<open>TypeError\<close>.\<close>

fun extend_call :: "jsval \<Rightarrow> exn + jsval" where
  "extend_call (Obj ClassCtor ps) = Inr (Obj ClassCtor [])"
| "extend_call (Obj InterfaceCtor ps) = Inr (Obj InterfaceCtor [])"
| "extend_call v = Inl TypeError"

text \<open>The text \<^verbatim>\<open>(v && v.cyName ? v.cyName : "UNKNOWN")\<close> of the two messages below.\<close>

definition cyName_text :: "jsval \<Rightarrow> string" where
  "cyName_text v =
     (if truthy v then (case get_prop v ''cyName'' of Inr (Str s) \<Rightarrow> (if s = [] then ''UNKNOWN'' else s)
                        | _ \<Rightarrow> ''UNKNOWN'')
      else ''UNKNOWN'')"

text \<open>\<^verbatim>\<open>!v.cyName || table[v.cyName] === undefined\<close> for a truthy \<open>v\<close>; a \<open>cyName\<close> is
  only ever assigned a string.\<close>

definition unregistered :: "(string \<rightharpoonup> bool) \<Rightarrow> jsval \<Rightarrow> bool" where
  "unregistered table v =
     (case get_prop v ''cyName'' of
        Inr (Str s) \<Rightarrow> s = [] \<or> table s = None
      | _ \<Rightarrow> True)"

definition extends_message :: "string \<Rightarrow> jsval \<Rightarrow> string" where
  "extends_message n v =
     ''Class '' @ [CHR 0x27] @ n @ [CHR 0x27] @ '' tries to extend a non-Class based object ''
       @ [CHR 0x27] @ cyName_text v @ [CHR 0x27] @ ''.''"

definition implements_message :: "string \<Rightarrow> jsval \<Rightarrow> string" where
  "implements_message n v =
     ''Class '' @ [CHR 0x27] @ n @ [CHR 0x27]
       @ '' tries to implement a non-Interface based object ''
       @ [CHR 0x27] @ cyName_text v @ [CHR 0x27] @ ''.''"

definition extendsCheck :: "cy \<Rightarrow> string \<Rightarrow> jsval \<Rightarrow> cy" where
  "extendsCheck c n Extends =
     (if truthy Extends \<and> unregistered (classes c) Extends
      then say (ConsoleError (extends_message n Extends)) c
      else c)"

text \<open>The loop that fills \<^verbatim>\<open>Implements\<close> with \<^verbatim>\<open>definitionGet\<close> of every name.\<close>

fun implementsGet :: "cy \<Rightarrow> string list \<Rightarrow> exn + jsval list" where
  "implementsGet c [] = Inr []"
| "implementsGet c (i # is) =
     (case definitionGet c (Some i) of
        Inl e \<Rightarrow> Inl e
      | Inr v \<Rightarrow> (case implementsGet c is of Inl e \<Rightarrow> Inl e | Inr vs \<Rightarrow> Inr (v # vs)))"

text \<open>The validation of every implemented interface. Reading
  \<^verbatim>\<open>currentInterface.prototype\<close> throws when the interface is \<^verbatim>\<open>undefined\<close> or \<^verbatim>\<open>null\<close>.
  The checks of the single methods compare the source text of the class's functions
  with the interface; they only write to the console and are left out.\<close>

fun interfacesCheck :: "cy \<Rightarrow> string \<Rightarrow> jsval list \<Rightarrow> exn option \<times> cy" where
  "interfacesCheck c n [] = (None, c)"
| "interfacesCheck c n (currentInterface # rest) =
     (let c1 = (if \<not> truthy currentInterface \<or> unregistered (interfaces c) currentInterface
                then say (ConsoleError (implements_message n currentInterface)) c
                else c)
      in if nullish currentInterface then (Some TypeError, c1)
         else interfacesCheck c1 n rest)"

definition classDebug :: "config \<Rightarrow> cy \<Rightarrow> string \<Rightarrow> args \<Rightarrow> jsval \<Rightarrow> exn option \<times> cy" where
  "classDebug cfg c n a Extends =
     (if debug_on cfg then
        (let c1 = (if debug_args_check cfg then extendsCheck c n Extends else c) in
         if debug_interfaces_check cfg \<or> debug_args_check cfg then
           (case arg_implements a of
              None \<Rightarrow> (None, c1)
            | Some is \<Rightarrow>
                withValue (implementsGet c1 is) c1 (\<lambda>Implements.
                  if debug_interfaces_check cfg then interfacesCheck c1 n Implements
                  else (None, c1)))
         else (None, c1))
      else (None, c))"

definition nameCheck :: "cy \<Rightarrow> string \<Rightarrow> cy" where
  "nameCheck c n =
     (if \<not> begins_uppercase (className_of n) then say (ConsoleError (uppercase_message n)) c
      else c)"

definition classProcess :: "config \<Rightarrow> cy \<Rightarrow> args \<Rightarrow> exn option \<times> cy" where
  "classProcess cfg c a =
     (case arg_name a of
        None \<Rightarrow> (Some TypeError, c)
      | Some n \<Rightarrow>
          (let c1 = nameCheck c n in
           withValue (definitionGet c1 (arg_extends a)) c1 (\<lambda>Extends.
           withValue (if truthy Extends then extend_call Extends else Inr (Obj ClassCtor [])) c1
             (\<lambda>newClass.
           andThen (classDebug cfg c1 n a Extends) (\<lambda>c2.
           withValue (set_prop newClass ''cyName'' (Str n)) c2 (\<lambda>newClass'.
           andThen (definitionSet c2 (Some n) newClass') (\<lambda>c3.
             (None, c3\<lparr>classes := (classes c3)(n \<mapsto> True)\<rparr>))))))))"

text \<open>The \<^verbatim>\<open>for\<close> loop of \<^verbatim>\<open>classProcessDeferred\<close>, from \<open>index\<close> on. The body writes
  only the entry at \<open>index\<close>, so the entries still to visit are the ones read at the
  start. The result carries \<^verbatim>\<open>ProcessSeen\<close>.\<close>

fun classFor :: "config \<Rightarrow> args option list \<Rightarrow> nat \<Rightarrow> bool \<Rightarrow> cy \<Rightarrow> exn option \<times> bool \<times> cy" where
  "classFor cfg [] index seen c = (None, seen, c)"
| "classFor cfg (None # rest) index seen c = classFor cfg rest (Suc index) seen c"
| "classFor cfg (Some a # rest) index seen c =
     (case classMissing c a of
        Inl e \<Rightarrow> (Some e, seen, c)
      | Inr missing \<Rightarrow>
          if missing = [] then
            (case classProcess cfg c a of
               (Some e, c1) \<Rightarrow> (Some e, True, c1)
             | (None, c1) \<Rightarrow>
                 classFor cfg rest (Suc index) True
                   (c1\<lparr>classesToProcess := (classesToProcess c1)[index := None]\<rparr>))
          else classFor cfg rest (Suc index) seen c)"

text \<open>The two \<^verbatim>\<open>while\<close> loops that pop the trailing and shift the leading \<^verbatim>\<open>null\<close>
  entries.\<close>

definition trimNulls :: "'a option list \<Rightarrow> 'a option list" where
  "trimNulls q = dropWhile (\<lambda>e. e = None) (rev (dropWhile (\<lambda>e. e = None) (rev q)))"

definition pending :: "'a option list \<Rightarrow> nat" where
  "pending q = length (filter (\<lambda>e. e \<noteq> None) q)"

text \<open>What the processing of a class, an interface or a definition never touches: the
  table of interfaces, the three queues and the list of priority definitions. The two
  \<^verbatim>\<open>do ... while\<close> loops below terminate because of it.\<close>

definition keeps :: "cy \<Rightarrow> cy \<Rightarrow> bool" where
  "keeps c c' \<longleftrightarrow>
     interfaces c' = interfaces c \<and> classesToProcess c' = classesToProcess c
     \<and> interfacesToProcess c' = interfacesToProcess c
     \<and> definitionsToProcess c' = definitionsToProcess c
     \<and> priorityDefinitions c' = priorityDefinitions c"

lemma keeps_refl: "keeps c c"
  by (simp add: keeps_def)

lemma keeps_trans: "keeps a b \<Longrightarrow> keeps b c \<Longrightarrow> keeps a c"
  by (simp add: keeps_def)

lemma keeps_andThen:
  "keeps c (snd r) \<Longrightarrow> (\<And>s. keeps c s \<Longrightarrow> keeps c (snd (f s))) \<Longrightarrow> keeps c (snd (andThen r f))"
  by (auto simp: andThen_def split: prod.splits option.splits)

lemma keeps_withValue:
  "keeps c s \<Longrightarrow> (\<And>v. keeps c (snd (f v))) \<Longrightarrow> keeps c (snd (withValue x s f))"
  by (auto simp: withValue_def split: sum.splits)

lemma keeps_say: "keeps c (say m c)"
  by (simp add: keeps_def say_def)

lemma keeps_definitionSet: "keeps c (snd (definitionSet c n x))"
  by (auto simp: keeps_def definitionSet_def split: option.splits sum.splits jsval.splits)

lemma keeps_interfacesCheck: "keeps c (snd (interfacesCheck c n vs))"
proof (induction vs arbitrary: c)
  case Nil
  show ?case by (simp add: keeps_refl)
next
  case (Cons v vs)
  have "keeps c (snd (interfacesCheck (say m c) n vs))" for m
    by (rule keeps_trans[OF keeps_say Cons.IH])
  then show ?case
    using Cons.IH by (simp add: Let_def keeps_say keeps_refl)
qed

lemma keeps_extendsCheck: "keeps c (extendsCheck c n v)"
  by (simp add: extendsCheck_def keeps_say keeps_refl)

lemma keeps_classDebug: "keeps c (snd (classDebug cfg c n a v))"
  using keeps_trans[OF keeps_extendsCheck keeps_interfacesCheck]
  by (auto simp: classDebug_def Let_def keeps_refl keeps_extendsCheck keeps_interfacesCheck
      intro!: keeps_withValue split: option.splits)

lemma keeps_nameCheck: "keeps c (nameCheck c n)"
  by (simp add: nameCheck_def keeps_say keeps_refl)

lemma keeps_classes_update: "keeps c c3 \<Longrightarrow> keeps c (c3\<lparr>classes := f\<rparr>)"
  by (simp add: keeps_def)

lemma keeps_classProcess: "keeps c (snd (classProcess cfg c a))"
proof (cases "arg_name a")
  case None
  then show ?thesis by (simp add: classProcess_def keeps_refl)
next
  case (Some n)
  then show ?thesis
    by (auto simp: classProcess_def Let_def keeps_nameCheck
        intro!: keeps_withValue keeps_andThen keeps_classes_update
        intro: keeps_trans[OF keeps_nameCheck keeps_classDebug] keeps_trans[OF _ keeps_definitionSet])
qed

lemma pending_update:
  "length pre = index \<Longrightarrow>
   pending ((pre @ Some a # rest)[index := None]) < pending (pre @ Some a # rest)"
  by (simp add: pending_def list_update_append)

lemma pending_dropWhile: "pending (dropWhile (\<lambda>e. e = None) q) = pending q"
  by (induction q) (auto simp: pending_def)

lemma pending_rev: "pending (rev q) = pending q"
  by (simp add: pending_def flip: rev_filter)

lemma pending_trimNulls: "pending (trimNulls q) = pending q"
  by (simp add: trimNulls_def pending_dropWhile pending_rev)

lemma classFor_pending:
  "classFor cfg rest index seen c = (None, seen', c') \<Longrightarrow>
   classesToProcess c = pre @ rest \<Longrightarrow> length pre = index \<Longrightarrow>
   pending (classesToProcess c') \<le> pending (classesToProcess c)
   \<and> (seen' \<and> \<not> seen \<longrightarrow> pending (classesToProcess c') < pending (classesToProcess c))"
proof (induction cfg rest index seen c arbitrary: pre rule: classFor.induct)
  case (1 cfg index seen c)
  then show ?case by simp
next
  case (2 cfg rest index seen c)
  from 2(1)[of "pre @ [None]"] 2(2-) show ?case by simp
next
  case (3 cfg a rest index seen c)
  show ?case
  proof (cases "classMissing c a")
    case (Inl e)
    with 3(3) show ?thesis by simp
  next
    case (Inr missing)
    show ?thesis
    proof (cases "missing = []")
      case False
      with Inr 3(2)[of missing "pre @ [Some a]"] 3(3-) show ?thesis by simp
    next
      case True
      obtain r c1 where cp: "classProcess cfg c a = (r, c1)" by (cases "classProcess cfg c a")
      with 3(3) Inr True have r: "r = None" by (cases r) auto
      have q1: "classesToProcess c1 = pre @ Some a # rest"
        using keeps_classProcess[of c cfg a] cp 3(4) by (simp add: keeps_def)
      let ?c2 = "c1\<lparr>classesToProcess := (classesToProcess c1)[index := None]\<rparr>"
      have q2: "classesToProcess ?c2 = (pre @ [None]) @ rest"
        using q1 3(5) by (simp add: list_update_append)
      have run: "classFor cfg rest (Suc index) True ?c2 = (None, seen', c')"
        using 3(3) Inr True cp r by simp
      have lt: "pending (classesToProcess ?c2) < pending (classesToProcess c)"
        using pending_update[OF 3(5), of a rest] q1 3(4) by simp
      have "length (pre @ [None]) = Suc index" using 3(5) by simp
      from 3(1)[OF Inr True cp[symmetric] r run q2 this] lt
      show ?thesis by simp
    qed
  qed
qed

function classProcessDeferred :: "config \<Rightarrow> cy \<Rightarrow> exn option \<times> cy" where
  "classProcessDeferred cfg c =
     (case classFor cfg (classesToProcess c) 0 False c of
        (Some e, ProcessSeen, c1) \<Rightarrow> (Some e, c1)
      | (None, ProcessSeen, c1) \<Rightarrow>
          (let c2 = c1\<lparr>classesToProcess := trimNulls (classesToProcess c1)\<rparr> in
           if ProcessSeen then classProcessDeferred cfg c2 else (None, c2)))"
  by pat_completeness auto
termination
proof (relation "measure (\<lambda>(cfg, c). pending (classesToProcess c))")
  show "wf (measure (\<lambda>(cfg, c). pending (classesToProcess c)))" by simp
next
  fix cfg c x1 y seen c1 c2
  assume a: "(x1, y) = classFor cfg (classesToProcess c) 0 False c" "(seen, c1) = y"
    "x1 = None" "c2 = c1\<lparr>classesToProcess := trimNulls (classesToProcess c1)\<rparr>" "seen"
  then have "classFor cfg (classesToProcess c) 0 False c = (None, True, c1)" by metis
  from classFor_pending[OF this, of "[]"] a
  show "((cfg, c2), (cfg, c)) \<in> measure (\<lambda>(cfg, c). pending (classesToProcess c))"
    by (simp add: pending_trimNulls)
qed

text \<open>\<^verbatim>\<open>cycligent.class\<close>, after \<^verbatim>\<open>cycligent.args\<close> and the split of \<open>implements\<close>.\<close>

definition cycligent_class :: "config \<Rightarrow> cy \<Rightarrow> args \<Rightarrow> exn option \<times> cy" where
  "cycligent_class cfg c a =
     withValue (classMissing c a) c (\<lambda>missing.
       if missing = [] then andThen (classProcess cfg c a) (classProcessDeferred cfg)
       else (None, c\<lparr>classes := (classes c)(the (arg_name a) \<mapsto> False),
                      classesToProcess := classesToProcess c @ [Some a]\<rparr>))"

section \<open>Interfaces\<close>

text \<open>\<^verbatim>\<open>interfaceProcess\<close>. With \<open>extends\<close>, the result of \<^verbatim>\<open>extend\<close> is not assigned and
  \<^verbatim>\<open>newInterface\<close> stays \<^verbatim>\<open>undefined\<close>.\<close>

definition interfaceProcess :: "cy \<Rightarrow> args \<Rightarrow> exn option \<times> cy" where
  "interfaceProcess c a =
     withValue
       (if given (arg_extends a) then
          (case definitionGet c (arg_extends a) of
             Inl e \<Rightarrow> Inl e
           | Inr parent \<Rightarrow> (case extend_call parent of Inl e \<Rightarrow> Inl e | Inr _ \<Rightarrow> Inr Undefined))
        else Inr (Obj InterfaceCtor []))
       c
       (\<lambda>newInterface.
          withValue
            (set_prop newInterface ''cyName''
               (case arg_name a of None \<Rightarrow> Undefined | Some n \<Rightarrow> Str n))
            c
            (\<lambda>newInterface'. definitionSet c (arg_name a) newInterface'))"

text \<open>Inside \<^verbatim>\<open>interfaceProcessDeferred\<close>, \<^verbatim>\<open>this\<close> is the object \<^verbatim>\<open>cycligent\<close>: every call
  is \<^verbatim>\<open>cycligent.interfaceProcessDeferred()\<close>. The object has no property \<^verbatim>\<open>name\<close>,
  \<^verbatim>\<open>extends\<close> or \<^verbatim>\<open>definition\<close>.\<close>

definition this_cycligent :: args where
  "this_cycligent =
     \<lparr>arg_name = None, arg_definition = Undefined, arg_extends = None,
      arg_implements = None, arg_priority = None\<rparr>"

fun interfaceFor :: "args option list \<Rightarrow> nat \<Rightarrow> bool \<Rightarrow> cy \<Rightarrow> exn option \<times> bool \<times> cy" where
  "interfaceFor [] index seen c = (None, seen, c)"
| "interfaceFor (None # rest) index seen c = interfaceFor rest (Suc index) seen c"
| "interfaceFor (Some a # rest) index seen c =
     (case interfaceMissing c this_cycligent of
        Inl e \<Rightarrow> (Some e, seen, c)
      | Inr missing \<Rightarrow>
          if missing = [] then
            (case interfaceProcess c this_cycligent of
               (Some e, c1) \<Rightarrow> (Some e, True, c1)
             | (None, c1) \<Rightarrow>
                 interfaceFor rest (Suc index) True
                   (c1\<lparr>interfacesToProcess := (interfacesToProcess c1)[index := None]\<rparr>))
          else interfaceFor rest (Suc index) seen c)"

lemma keeps_interfaceProcess: "keeps c (snd (interfaceProcess c a))"
  by (auto simp: interfaceProcess_def keeps_refl keeps_definitionSet intro!: keeps_withValue)

lemma interfaceFor_pending:
  "interfaceFor rest index seen c = (None, seen', c') \<Longrightarrow>
   interfacesToProcess c = pre @ rest \<Longrightarrow> length pre = index \<Longrightarrow>
   pending (interfacesToProcess c') \<le> pending (interfacesToProcess c)
   \<and> (seen' \<and> \<not> seen \<longrightarrow> pending (interfacesToProcess c') < pending (interfacesToProcess c))"
proof (induction rest index seen c arbitrary: pre rule: interfaceFor.induct)
  case (1 index seen c)
  then show ?case by simp
next
  case (2 rest index seen c)
  from 2(1)[of "pre @ [None]"] 2(2-) show ?case by simp
next
  case (3 a rest index seen c)
  have "interfaceMissing c this_cycligent = Inl TypeError"
    by (simp add: interfaceMissing_def this_cycligent_def)
  with 3(3) show ?case by simp
qed

function interfaceDo :: "bool \<Rightarrow> cy \<Rightarrow> exn option \<times> bool \<times> cy" where
  "interfaceDo interfaceProcessed c =
     (case interfaceFor (interfacesToProcess c) 0 False c of
        (Some e, processSeen, c1) \<Rightarrow> (Some e, interfaceProcessed \<or> processSeen, c1)
      | (None, processSeen, c1) \<Rightarrow>
          (let c2 = c1\<lparr>interfacesToProcess := trimNulls (interfacesToProcess c1)\<rparr> in
           if processSeen then interfaceDo True c2 else (None, interfaceProcessed, c2)))"
  by pat_completeness auto
termination
proof (relation "measure (\<lambda>(ip, c). pending (interfacesToProcess c))")
  show "wf (measure (\<lambda>(ip, c). pending (interfacesToProcess c)))" by simp
next
  fix ip c x1 y seen c1 c2
  assume a: "(x1, y) = interfaceFor (interfacesToProcess c) 0 False c" "(seen, c1) = y"
    "x1 = None" "c2 = c1\<lparr>interfacesToProcess := trimNulls (interfacesToProcess c1)\<rparr>" "seen"
  then have "interfaceFor (interfacesToProcess c) 0 False c = (None, True, c1)" by metis
  from interfaceFor_pending[OF this, of "[]"] a
  show "((True, c2), (ip, c)) \<in> measure (\<lambda>(ip, c). pending (interfacesToProcess c))"
    by (simp add: pending_trimNulls)
qed

definition interfaceProcessDeferred :: "config \<Rightarrow> cy \<Rightarrow> exn option \<times> cy" where
  "interfaceProcessDeferred cfg c =
     (case interfaceDo False c of
        (Some e, interfaceProcessed, c1) \<Rightarrow> (Some e, c1)
      | (None, interfaceProcessed, c1) \<Rightarrow>
          if interfaceProcessed then classProcessDeferred cfg c1 else (None, c1))"

text \<open>\<^verbatim>\<open>cycligent.interface\<close>, after \<^verbatim>\<open>cycligent.args\<close>.\<close>

definition cycligent_interface :: "config \<Rightarrow> cy \<Rightarrow> args \<Rightarrow> exn option \<times> cy" where
  "cycligent_interface cfg c a =
     withValue (interfaceMissing c a) c (\<lambda>missing.
       if missing = [] then
         andThen (interfaceProcess c a) (\<lambda>c1.
           interfaceProcessDeferred cfg
             (c1\<lparr>interfaces := (interfaces c1)(the (arg_name a) \<mapsto> True)\<rparr>))
       else (None, c\<lparr>interfaces := (interfaces c)(the (arg_name a) \<mapsto> False),
                      interfacesToProcess := interfacesToProcess c @ [Some a]\<rparr>))"

section \<open>Definitions\<close>

text \<open>\<^verbatim>\<open>args.definition instanceof Function\<close> and the call \<^verbatim>\<open>args.definition()\<close>. A
  constructor made by \<^verbatim>\<open>Class.extend\<close> or \<^verbatim>\<open>Interface.extend\<close> is a function too; called
  without \<^verbatim>\<open>new\<close> it returns \<^verbatim>\<open>undefined\<close>.\<close>

fun call_function :: "jsval \<Rightarrow> (exn + jsval) option" where
  "call_function (Fn (Returns v)) = Some (Inr v)"
| "call_function (Fn Throws) = Some (Inl UserException)"
| "call_function (Obj ClassCtor ps) = Some (Inr Undefined)"
| "call_function (Obj InterfaceCtor ps) = Some (Inr Undefined)"
| "call_function v = None"

text \<open>The body shared by \<^verbatim>\<open>definitionProcess2\<close> and \<^verbatim>\<open>cycligent.define.execute\<close>: a
  function is called and its result, when truthy, stored under the name; any other
  definition is stored itself.\<close>

definition definitionStore :: "cy \<Rightarrow> args \<Rightarrow> exn option \<times> cy" where
  "definitionStore c a =
     (case call_function (arg_definition a) of
        Some result \<Rightarrow>
          withValue result c (\<lambda>returnValue.
            if truthy returnValue then definitionSet c (arg_name a) returnValue else (None, c))
      | None \<Rightarrow> definitionSet c (arg_name a) (arg_definition a))"

fun nonzero :: "int option \<Rightarrow> bool" where
  "nonzero None = False"
| "nonzero (Some p) = (p \<noteq> 0)"

definition definitionProcess2 :: "cy \<Rightarrow> args \<Rightarrow> exn option \<times> cy" where
  "definitionProcess2 c a =
     (if truthy (arg_definition a) then
        (if nonzero (arg_priority a)
         then (None, c\<lparr>priorityDefinitions := priorityDefinitions c @ [a]\<rparr>)
         else definitionStore c a)
      else (None, c))"

definition definitionProcess :: "cy \<Rightarrow> args \<Rightarrow> exn option \<times> cy" where
  "definitionProcess c a =
     withValue (definitionGet c (arg_name a)) c (\<lambda>current.
       andThen (if \<not> truthy current then definitionSet c (arg_name a) (Obj Plain []) else (None, c))
         (\<lambda>c1. definitionProcess2 c1 a))"

text \<open>The \<^verbatim>\<open>for\<close> loop of \<^verbatim>\<open>definitionProcessDeferred\<close>. A processed entry is spliced
  out and the index stays; the entries of this queue are never \<^verbatim>\<open>null\<close>.\<close>

fun definitionFor :: "args list \<Rightarrow> nat \<Rightarrow> bool \<Rightarrow> cy \<Rightarrow> exn option \<times> bool \<times> cy" where
  "definitionFor [] index seen c = (None, seen, c)"
| "definitionFor (a # rest) index seen c =
     (case definitionMissing c a of
        Inl e \<Rightarrow> (Some e, seen, c)
      | Inr missing \<Rightarrow>
          if missing = [] then
            (case definitionProcess c a of
               (Some e, c1) \<Rightarrow> (Some e, True, c1)
             | (None, c1) \<Rightarrow>
                 definitionFor rest index True
                   (c1\<lparr>definitionsToProcess :=
                         take index (definitionsToProcess c1)
                           @ drop (Suc index) (definitionsToProcess c1)\<rparr>))
          else definitionFor rest (Suc index) seen c)"

definition keeps_queue :: "cy \<Rightarrow> cy \<Rightarrow> bool" where
  "keeps_queue c c' \<longleftrightarrow> definitionsToProcess c' = definitionsToProcess c"

lemma keeps_queue_refl: "keeps_queue c c"
  by (simp add: keeps_queue_def)

lemma keeps_queue_trans: "keeps_queue a b \<Longrightarrow> keeps_queue b c \<Longrightarrow> keeps_queue a c"
  by (simp add: keeps_queue_def)

lemma keeps_queue_andThen:
  "keeps_queue c (snd r) \<Longrightarrow> (\<And>s. keeps_queue c s \<Longrightarrow> keeps_queue c (snd (f s))) \<Longrightarrow>
   keeps_queue c (snd (andThen r f))"
  by (cases r) (auto simp: andThen_def split: option.splits)

lemma keeps_queue_withValue:
  "keeps_queue c s \<Longrightarrow> (\<And>v. keeps_queue c (snd (f v))) \<Longrightarrow> keeps_queue c (snd (withValue x s f))"
  by (cases x) (auto simp: withValue_def)

lemma keeps_queue_definitionSet: "keeps_queue c (snd (definitionSet c n x))"
  using keeps_definitionSet[of c n x] by (simp add: keeps_def keeps_queue_def)

lemma keeps_queue_definitionStore: "keeps_queue c (snd (definitionStore c a))"
proof (cases "call_function (arg_definition a)")
  case None
  then show ?thesis by (simp add: definitionStore_def keeps_queue_definitionSet)
next
  case (Some result)
  then show ?thesis
    by (auto simp: definitionStore_def keeps_queue_definitionSet keeps_queue_refl
        intro!: keeps_queue_withValue)
qed

lemma keeps_queue_definitionProcess2: "keeps_queue c (snd (definitionProcess2 c a))"
  using keeps_queue_definitionStore[of c a] by (simp add: definitionProcess2_def keeps_queue_def)

lemma keeps_queue_definitionProcess: "keeps_queue c (snd (definitionProcess c a))"
  unfolding definitionProcess_def
proof (intro keeps_queue_withValue keeps_queue_andThen keeps_queue_refl)
  fix v
  show "keeps_queue c (snd (if \<not> truthy v then definitionSet c (arg_name a) (Obj Plain []) else (None, c)))"
    by (simp add: keeps_queue_definitionSet keeps_queue_refl)
next
  fix v s
  assume "keeps_queue c s"
  then show "keeps_queue c (snd (definitionProcess2 s a))"
    by (rule keeps_queue_trans[OF _ keeps_queue_definitionProcess2])
qed

lemma definitionFor_length:
  "definitionFor rest index seen c = (None, seen', c') \<Longrightarrow>
   definitionsToProcess c = pre @ rest \<Longrightarrow> length pre = index \<Longrightarrow>
   length (definitionsToProcess c') \<le> length (definitionsToProcess c)
   \<and> (seen' \<and> \<not> seen \<longrightarrow> length (definitionsToProcess c') < length (definitionsToProcess c))"
proof (induction rest index seen c arbitrary: pre rule: definitionFor.induct)
  case (1 index seen c)
  then show ?case by simp
next
  case (2 a rest index seen c)
  show ?case
  proof (cases "definitionMissing c a")
    case (Inl e)
    with 2(3) show ?thesis by simp
  next
    case (Inr missing)
    show ?thesis
    proof (cases "missing = []")
      case False
      have "length (pre @ [a]) = Suc index" using 2(5) by simp
      with Inr False 2(2)[of missing "pre @ [a]"] 2(3-) show ?thesis by simp
    next
      case True
      obtain r c1 where cp: "definitionProcess c a = (r, c1)" by (cases "definitionProcess c a")
      with 2(3) Inr True have r: "r = None" by (cases r) auto
      have q1: "definitionsToProcess c1 = pre @ a # rest"
        using keeps_queue_definitionProcess[of c a] cp 2(4) by (simp add: keeps_queue_def)
      let ?c2 = "c1\<lparr>definitionsToProcess :=
                      take index (definitionsToProcess c1) @ drop (Suc index) (definitionsToProcess c1)\<rparr>"
      have q2: "definitionsToProcess ?c2 = pre @ rest"
        using q1 2(5) by simp
      have run: "definitionFor rest index True ?c2 = (None, seen', c')"
        using 2(3) Inr True cp r by simp
      from 2(1)[OF Inr True cp[symmetric] r run q2 2(5)] q2 2(4)
      show ?thesis by simp
    qed
  qed
qed

function definitionProcessDeferred :: "cy \<Rightarrow> exn option \<times> cy" where
  "definitionProcessDeferred c =
     (case definitionFor (definitionsToProcess c) 0 False c of
        (Some e, ProcessSeen, c1) \<Rightarrow> (Some e, c1)
      | (None, ProcessSeen, c1) \<Rightarrow>
          if ProcessSeen then definitionProcessDeferred c1 else (None, c1))"
  by pat_completeness auto
termination
proof (relation "measure (\<lambda>c. length (definitionsToProcess c))")
  show "wf (measure (\<lambda>c. length (definitionsToProcess c)))" by simp
next
  fix c x1 y seen c1
  assume a: "(x1, y) = definitionFor (definitionsToProcess c) 0 False c" "(seen, c1) = y"
    "x1 = None" "seen"
  then have "definitionFor (definitionsToProcess c) 0 False c = (None, True, c1)" by metis
  from definitionFor_length[OF this, of "[]"]
  show "(c1, c) \<in> measure (\<lambda>c. length (definitionsToProcess c))"
    by simp
qed

text \<open>\<^verbatim>\<open>cycligent.define\<close>, after \<^verbatim>\<open>cycligent.args\<close>.\<close>

definition cycligent_define :: "cy \<Rightarrow> args \<Rightarrow> exn option \<times> cy" where
  "cycligent_define c a =
     withValue (definitionMissing c a) c (\<lambda>missing.
       if missing = [] then andThen (definitionProcess c a) definitionProcessDeferred
       else (None, c\<lparr>definitionsToProcess := definitionsToProcess c @ [a]\<rparr>))"

text \<open>\<^verbatim>\<open>cycligent.define.execute\<close>: the priority definitions are sorted in place by
  priority (the sort is taken to be stable) and executed in that order, each followed by
  a pass over the deferred classes and interfaces.\<close>

definition priority_of :: "args \<Rightarrow> int" where
  "priority_of a = (case arg_priority a of None \<Rightarrow> 0 | Some p \<Rightarrow> p)"

fun executeFor :: "config \<Rightarrow> args list \<Rightarrow> cy \<Rightarrow> exn option \<times> cy" where
  "executeFor cfg [] c = (None, c)"
| "executeFor cfg (a # rest) c =
     andThen (definitionStore c a) (\<lambda>c1.
     andThen (classProcessDeferred cfg c1) (\<lambda>c2.
     andThen (interfaceProcessDeferred cfg c2) (\<lambda>c3.
       executeFor cfg rest c3)))"

definition define_execute :: "config \<Rightarrow> cy \<Rightarrow> exn option \<times> cy" where
  "define_execute cfg c =
     (let sorted = sort_key priority_of (priorityDefinitions c)
      in executeFor cfg sorted (c\<lparr>priorityDefinitions := sorted\<rparr>))"

text \<open>The inner loop of \<^verbatim>\<open>_createAssumedDefinitions\<close>: every falsy segment of the path, the
  last one included, becomes an empty object. The objects made before an exception
  stay.\<close>

fun materialize :: "jsval \<Rightarrow> string list \<Rightarrow> exn option \<times> jsval" where
  "materialize dependantVar [] = (None, dependantVar)"
| "materialize dependantVar (k # ks) =
     (if nullish dependantVar then (Some TypeError, dependantVar)
      else
        (let v1 = (if \<not> truthy (read_prop dependantVar k) then put dependantVar k (Obj Plain [])
                   else dependantVar)
         in case materialize (read_prop v1 k) ks of
              (r, child) \<Rightarrow> (r, put v1 k child)))"

definition assumeOne :: "cy \<Rightarrow> args \<Rightarrow> exn option \<times> cy" where
  "assumeOne c a =
     (case arg_name a of
        None \<Rightarrow> (Some TypeError, c)
      | Some n \<Rightarrow>
          andThen
            (case materialize (Obj Plain (window c)) (split_dot n) of
               (r, Obj k ps) \<Rightarrow> (r, c\<lparr>window := ps\<rparr>)
             | (r, _) \<Rightarrow> (r, c))
            (\<lambda>c1. definitionProcess2 c1 a))"

fun assumeFor :: "args list \<Rightarrow> cy \<Rightarrow> exn option \<times> cy" where
  "assumeFor [] c = (None, c)"
| "assumeFor (a # rest) c = andThen (assumeOne c a) (assumeFor rest)"

section \<open>The loader and the start of the application\<close>

text \<open>What the loader knows of the page it runs in: \<^verbatim>\<open>cycligent.test\<close> (\<open>None\<close> when it is
  not defined, else the value of \<^verbatim>\<open>doImports\<close>), whether the host name is
  \<^verbatim>\<open>localhost\<close> or \<^verbatim>\<open>127.0.0.1\<close>, whether \<^verbatim>\<open>window.cycligentConfigOverride\<close> is set,
  whether the document is already complete when \<^verbatim>\<open>load\<close> runs, the locator translation
  \<^verbatim>\<open>cycligent.url\<close>, what a call of the application's \<^verbatim>\<open>main\<close> does, which observers
  throw when notified, and the names of the properties that every array of the browser
  inherits from its prototypes (\<^verbatim>\<open>map\<close>, \<^verbatim>\<open>push\<close>, \<^verbatim>\<open>constructor\<close> and so on; their values are
  truthy). The calls of \<^verbatim>\<open>cycligent.timing.event\<close> are instrumentation and left out.\<close>

record host =
  test :: "bool option"
  hostname_local :: bool
  configOverride :: bool
  doc_complete :: bool
  url :: "string \<Rightarrow> string"
  main :: fbody
  observer_throws :: "nat \<Rightarrow> bool"
  array_names :: "string list"

record script =
  scriptId :: string
  loaded :: bool
  interval :: bool

datatype event = AllScriptsLoaded | MainCalled | Notified nat | Uncaught exn

text \<open>\<open>AllScriptsLoaded\<close> records a call of \<^verbatim>\<open>cycligent.appLoad.allScriptsLoaded\<close>,
  \<open>MainCalled\<close> a call of \<^verbatim>\<open>main\<close>, \<open>Notified f\<close> a call of the observer \<open>f\<close>, and
  \<open>Uncaught e\<close> an exception that left an event handler. Observers are told apart by a
  number, as the code tells them apart by identity.\<close>

record state =
  registry :: cy
  scriptsPending :: int
  scriptsCount :: int
  scripts :: "(string \<times> script) list"
  scriptsReady :: bool
  domReady :: bool
  pageReady :: bool
  appLoadFinished :: bool
  notifyFunctions :: "nat list"
  scaffoldingReady :: bool
  events :: "event list"

definition inRegistry :: "(cy \<Rightarrow> exn option \<times> cy) \<Rightarrow> state \<Rightarrow> exn option \<times> state" where
  "inRegistry f s = (case f (registry s) of (r, c) \<Rightarrow> (r, s\<lparr>registry := c\<rparr>))"

definition tell :: "log \<Rightarrow> state \<Rightarrow> state" where
  "tell m s = s\<lparr>registry := say m (registry s)\<rparr>"

definition emit :: "event \<Rightarrow> state \<Rightarrow> state" where
  "emit e s = s\<lparr>events := events s @ [e]\<rparr>"

fun digit_text :: "nat \<Rightarrow> string" where
  "digit_text n =
     (if n < 10 then [char_of (48 + n)] else digit_text (n div 10) @ [char_of (48 + n mod 10)])"

definition number_text :: "int \<Rightarrow> string" where
  "number_text i = (if i < 0 then ''-'' @ digit_text (nat (- i)) else digit_text (nat i))"

subsection \<open>Observers\<close>

definition notify :: "nat \<Rightarrow> state \<Rightarrow> state" where
  "notify func s =
     (if func \<in> set (notifyFunctions s) then s
      else s\<lparr>notifyFunctions := notifyFunctions s @ [func]\<rparr>)"

definition notifyClear :: "nat \<Rightarrow> state \<Rightarrow> state" where
  "notifyClear func s = s\<lparr>notifyFunctions := filter (\<lambda>f. f \<noteq> func) (notifyFunctions s)\<rparr>"

definition finished :: "state \<Rightarrow> bool" where
  "finished s = appLoadFinished s"

subsection \<open>\<^verbatim>\<open>_executeMain\<close> and \<^verbatim>\<open>readyCheck\<close>\<close>

fun notifyFor :: "host \<Rightarrow> nat list \<Rightarrow> state \<Rightarrow> exn option \<times> state" where
  "notifyFor h [] s = (None, s)"
| "notifyFor h (f # fs) s =
     (if observer_throws h f then (Some UserException, emit (Notified f) s)
      else notifyFor h fs (emit (Notified f) s))"

definition mainGo :: "host \<Rightarrow> state \<Rightarrow> exn option \<times> state" where
  "mainGo h s =
     andThen
       (if test h \<noteq> None then (None, s\<lparr>scaffoldingReady := True\<rparr>)
        else if appLoadFinished s = False then
          (case main h of
             Returns v \<Rightarrow> (None, emit MainCalled s)
           | Throws \<Rightarrow> (Some UserException, emit MainCalled s))
        else (None, s))
       (\<lambda>s1. notifyFor h (notifyFunctions s1) (s1\<lparr>appLoadFinished := True\<rparr>))"

definition name_text :: "string option \<Rightarrow> string" where
  "name_text n = (case n of None \<Rightarrow> ''undefined'' | Some t \<Rightarrow> t)"

definition failed_message :: "string \<Rightarrow> string option \<Rightarrow> string \<Rightarrow> string" where
  "failed_message what n missing =
     ''The '' @ what @ '' '' @ [CHR 0x27] @ name_text n @ [CHR 0x27]
       @ '' failed to process at startup. Missing dependency '' @ [CHR 0x27] @ missing
       @ [CHR 0x27] @ ''.''"

text \<open>The two loops that report what is still queued. An entry that a pass has set to
  \<^verbatim>\<open>null\<close> makes \<^verbatim>\<open>o.name\<close> a \<^verbatim>\<open>TypeError\<close>.\<close>

fun reportFor ::
  "string \<Rightarrow> (cy \<Rightarrow> args \<Rightarrow> exn + string) \<Rightarrow> args option list \<Rightarrow> cy \<Rightarrow> exn option \<times> cy" where
  "reportFor what missingOf [] c = (None, c)"
| "reportFor what missingOf (None # rest) c = (Some TypeError, c)"
| "reportFor what missingOf (Some entry # rest) c =
     withValue (missingOf c entry) c (\<lambda>missing.
       reportFor what missingOf rest
         (say (ConsoleError (failed_message what (arg_name entry) missing)) c))"

text \<open>\<^verbatim>\<open>try { ... } catch (ex) { console.error(ex); }\<close>\<close>

definition tryCatch :: "exn option \<times> state \<Rightarrow> exn option \<times> state" where
  "tryCatch r =
     (case r of (None, s) \<Rightarrow> (None, s) | (Some ex, s) \<Rightarrow> (None, tell (ConsoleException ex) s))"

definition executeMain :: "config \<Rightarrow> host \<Rightarrow> state \<Rightarrow> exn option \<times> state" where
  "executeMain cfg h s =
     andThen (inRegistry (\<lambda>c. reportFor ''interface'' interfaceMissing (interfacesToProcess c) c) s)
       (\<lambda>s1.
     andThen (inRegistry (\<lambda>c. reportFor ''class'' classMissing (classesToProcess c) c) s1)
       (\<lambda>s2.
          if doNotCatchAllExceptionsOnLocalHost cfg \<and> hostname_local h then mainGo h s2
          else tryCatch (mainGo h s2)))"

definition ready_text :: "bool \<Rightarrow> string" where
  "ready_text b = (if b then [] else ''not '')"

definition readyCheck :: "config \<Rightarrow> host \<Rightarrow> state \<Rightarrow> exn option \<times> state" where
  "readyCheck cfg h s =
     (let s1 = (if \<not> appLoadFinished s \<and> debug_startup cfg
                then tell (ConsoleInfo (''Scripts '' @ ready_text (scriptsReady s) @ ''ready, ''
                             @ ''DOM '' @ ready_text (domReady s) @ ''ready, ''
                             @ ''page '' @ ready_text (pageReady s) @ ''ready.'')) s
                else s)
      in if scriptsReady s1 \<and> domReady s1 \<and> pageReady s1 then
           (let s2 = (if configOverride h
                      then tell (ConsoleLog ''Configuration override was present in markup.'') s1
                      else s1);
                s3 = (if \<not> appLoadFinished s2 \<and> debug_startup cfg
                      then tell (ConsoleInfo ''Cycligent starting application.'') s2 else s2)
            in executeMain cfg h s3)
         else (None, s1))"

subsection \<open>The end of script loading\<close>

definition allScriptsLoaded2 :: "config \<Rightarrow> host \<Rightarrow> state \<Rightarrow> exn option \<times> state" where
  "allScriptsLoaded2 cfg h s = andThen (inRegistry (define_execute cfg) s) (readyCheck cfg h)"

definition createAssumedDefinitions :: "config \<Rightarrow> host \<Rightarrow> state \<Rightarrow> exn option \<times> state" where
  "createAssumedDefinitions cfg h s =
     andThen (inRegistry (\<lambda>c. assumeFor (definitionsToProcess c) c) s) (\<lambda>s1.
     andThen (inRegistry (classProcessDeferred cfg) s1) (\<lambda>s2.
     andThen (inRegistry (interfaceProcessDeferred cfg) s2) (\<lambda>s3.
       allScriptsLoaded2 cfg h s3)))"

definition allScriptsLoaded :: "config \<Rightarrow> host \<Rightarrow> state \<Rightarrow> exn option \<times> state" where
  "allScriptsLoaded cfg h s =
     (let s0 = emit AllScriptsLoaded s;
          s1 = (if debug_scripts cfg
                then tell (ConsoleInfo (number_text (scriptsCount s0) @ '' script(s) loaded.'')) s0
                else s0);
          s2 = s1\<lparr>scriptsReady := True\<rparr>;
          s3 = (if debug_startup cfg
                then tell (ConsoleInfo ''Running module initialization code.'') s2 else s2)
      in if definitionsToProcess (registry s3) \<noteq> [] then createAssumedDefinitions cfg h s3
         else allScriptsLoaded2 cfg h s3)"

subsection \<open>Imports\<close>

text \<open>\<^verbatim>\<open>cycligent.imports.scripts\<close> is an array, used as a table from script ids to
  \<^verbatim>\<open>cycligent.Script\<close> objects. \<open>scripts\<close> holds the objects made so far, by id. A property
  name that is the decimal numeral of a number below \<open>2\<^sup>3\<^sup>2 - 1\<close> is an index of the array,
  and the array's \<^verbatim>\<open>length\<close> is one more than its largest index.\<close>

definition decimal :: "string \<Rightarrow> nat" where
  "decimal k = foldl (\<lambda>n c. 10 * n + (of_char c - 48)) 0 k"

definition array_index :: "string \<Rightarrow> nat option" where
  "array_index k =
     (if k \<noteq> [] \<and> list_all (\<lambda>c. 48 \<le> (of_char c :: nat) \<and> (of_char c :: nat) \<le> 57) k
         \<and> (length k = 1 \<or> hd k \<noteq> CHR ''0'') \<and> decimal k < 4294967295
      then Some (decimal k) else None)"

definition array_length :: "(string \<times> script) list \<Rightarrow> nat" where
  "array_length ss =
     foldr (\<lambda>(k, me) n. case array_index k of None \<Rightarrow> n | Some i \<Rightarrow> max n (Suc i)) ss 0"

text \<open>The test \<^verbatim>\<open>if (cycligent.imports.scripts[args.scriptId])\<close>: true for the id of a script
  object in the array and for the name of a property that the array inherits; under
  \<^verbatim>\<open>length\<close> the array has its length.\<close>

definition listed :: "host \<Rightarrow> state \<Rightarrow> string \<Rightarrow> bool" where
  "listed h s sid \<longleftrightarrow>
     (if sid = ''length'' then array_length (scripts s) \<noteq> 0
      else map_of (scripts s) sid \<noteq> None \<or> sid \<in> set (array_names h))"

text \<open>\<^verbatim>\<open>cycligent.Imports.Import\<close> with the constructor of \<^verbatim>\<open>cycligent.Script\<close>, which starts
  the load and the timer. The assignment \<^verbatim>\<open>scripts["length"] = new cycligent.Script(...)\<close>
  throws a \<^verbatim>\<open>RangeError\<close> after the script object has been made and its load has started:
  the object is among \<open>scripts\<close>, the array does not have it, and \<open>listed\<close> does not find
  it. (Each further import of \<^verbatim>\<open>length\<close> makes one more such object; \<open>scripts\<close> keeps one
  object for an id.)\<close>

definition redundant_notice :: "string \<Rightarrow> log" where
  "redundant_notice sid =
     ConsoleInfo (''Redundant import of '' @ [CHR 0x27] @ sid @ [CHR 0x27] @ '' avoided.'')"

definition Import :: "config \<Rightarrow> host \<Rightarrow> string \<Rightarrow> state \<Rightarrow> exn option \<times> state" where
  "Import cfg h sid s =
     (if test h = Some False then (None, s)
      else if listed h s sid then
        (None, if debug_scripts cfg then tell (redundant_notice sid) s else s)
      else
        (let s1 = s\<lparr>scriptsPending := scriptsPending s + 1, scriptsCount := scriptsCount s + 1\<rparr>;
             s2 = (if debug_scripts cfg
                   then tell (ConsoleInfo (''Importing script: '' @ sid @ '' ('' @ url h sid @ '')'')) s1
                   else s1);
             s3 = s2\<lparr>scripts := AList.update sid \<lparr>scriptId = sid, loaded = False, interval = True\<rparr>
                                   (scripts s2)\<rparr>
         in (if sid = ''length'' then Some RangeError else None, s3)))"

text \<open>\<^verbatim>\<open>cycligent.Imports.scriptLoaded\<close>, the callback of every script.\<close>

definition Imports_scriptLoaded :: "config \<Rightarrow> host \<Rightarrow> state \<Rightarrow> exn option \<times> state" where
  "Imports_scriptLoaded cfg h s =
     andThen (inRegistry (classProcessDeferred cfg) s) (\<lambda>s1.
     andThen (inRegistry (interfaceProcessDeferred cfg) s1) (\<lambda>s2.
       (let s3 = s2\<lparr>scriptsPending := scriptsPending s2 - 1\<rparr>
        in if scriptsPending s3 = 0 then allScriptsLoaded cfg h s3 else (None, s3))))"

text \<open>\<^verbatim>\<open>cycligent.Script.scriptLoaded\<close> and \<^verbatim>\<open>cycligent.Script.timeout\<close> of the script
  stored under \<open>sid\<close>.\<close>

definition Script_scriptLoaded :: "config \<Rightarrow> host \<Rightarrow> string \<Rightarrow> script \<Rightarrow> state \<Rightarrow> exn option \<times> state" where
  "Script_scriptLoaded cfg h sid me s =
     (let s1 = s\<lparr>scripts := AList.update sid (me\<lparr>interval := False, loaded := True\<rparr>) (scripts s)\<rparr>;
          s2 = (if debug_scripts cfg
                then tell (ConsoleInfo (''Import Complete (Script Loaded): '' @ scriptId me)) s1
                else s1)
      in Imports_scriptLoaded cfg h s2)"

definition Script_timeout :: "string \<Rightarrow> script \<Rightarrow> state \<Rightarrow> state" where
  "Script_timeout sid me s =
     tell (ConsoleError (''Script Import Failed: '' @ scriptId me))
       (s\<lparr>scripts := AList.update sid (me\<lparr>interval := False\<rparr>) (scripts s)\<rparr>)"

subsection \<open>\<^verbatim>\<open>load\<close> and the events of the page\<close>

definition domLoaded :: "config \<Rightarrow> host \<Rightarrow> state \<Rightarrow> exn option \<times> state" where
  "domLoaded cfg h s = readyCheck cfg h (s\<lparr>domReady := True\<rparr>)"

definition pageLoaded :: "config \<Rightarrow> host \<Rightarrow> state \<Rightarrow> exn option \<times> state" where
  "pageLoaded cfg h s = readyCheck cfg h (s\<lparr>pageReady := True\<rparr>)"

definition load :: "config \<Rightarrow> host \<Rightarrow> state \<Rightarrow> exn option \<times> state" where
  "load cfg h s =
     andThen
       (if test h = None \<and> waitFor_dom cfg then
          (if doc_complete h then domLoaded cfg h s else (None, s))
        else (None, s\<lparr>domReady := True\<rparr>))
       (\<lambda>s1.
          (let s2 = (if test h = None \<and> waitFor_page cfg then s1 else s1\<lparr>pageReady := True\<rparr>)
           in if test h = None \<or> test h = Some True then
                Import cfg h (startupScript cfg) (s2\<lparr>scriptsPending := scriptsPending s2 - 1\<rparr>)
              else
                (let s3 = s2\<lparr>scriptsReady := True\<rparr>;
                     s4 = (if debug_startup cfg
                           then tell (ConsoleInfo ''Running module initialization code in test mode.'') s3
                           else s3)
                 in if definitionsToProcess (registry s4) \<noteq> [] then createAssumedDefinitions cfg h s4
                    else allScriptsLoaded2 cfg h s4)))"

text \<open>The events that the page delivers to the loader. The \<^verbatim>\<open>load\<close> event of a script
  element fires at most once, and the timer of a script fires only while it has not
  been cleared. An exception that leaves a handler is reported by the page and the
  handler's changes up to it stay.\<close>

datatype page_event = ScriptLoad string | IntervalTick string | DomContentLoaded | WindowLoad

definition uncaught :: "exn option \<times> state \<Rightarrow> state" where
  "uncaught r = (case r of (None, s) \<Rightarrow> s | (Some e, s) \<Rightarrow> emit (Uncaught e) s)"

fun deliver :: "config \<Rightarrow> host \<Rightarrow> page_event \<Rightarrow> state \<Rightarrow> state" where
  "deliver cfg h (ScriptLoad sid) s =
     (case map_of (scripts s) sid of
        None \<Rightarrow> s
      | Some me \<Rightarrow> if loaded me then s else uncaught (Script_scriptLoaded cfg h sid me s))"
| "deliver cfg h (IntervalTick sid) s =
     (case map_of (scripts s) sid of
        None \<Rightarrow> s
      | Some me \<Rightarrow> if interval me then Script_timeout sid me s else s)"
| "deliver cfg h DomContentLoaded s = uncaught (domLoaded cfg h s)"
| "deliver cfg h WindowLoad s = uncaught (pageLoaded cfg h s)"

fun deliver_all :: "config \<Rightarrow> host \<Rightarrow> page_event list \<Rightarrow> state \<Rightarrow> state" where
  "deliver_all cfg h [] s = s"
| "deliver_all cfg h (ev # evs) s = deliver_all cfg h evs (deliver cfg h ev s)"

subsection \<open>The state in which \<^verbatim>\<open>cycligent.appLoad.load\<close> is called\<close>

text \<open>\<^verbatim>\<open>cycligent.boot\<close> has registered the classes \<^verbatim>\<open>cycligent.Script\<close> and
  \<^verbatim>\<open>cycligent.Imports\<close>; \<^verbatim>\<open>scriptsPending\<close> is 1 on the prototype of \<^verbatim>\<open>cycligent.Imports\<close>.\<close>

definition empty_registry :: cy where
  "empty_registry =
     \<lparr>window = [(''cycligent'', Obj Plain [])], classes = Map.empty, interfaces = Map.empty,
      classesToProcess = [], interfacesToProcess = [], definitionsToProcess = [],
      priorityDefinitions = [], console = []\<rparr>"

definition plain_args :: "string \<Rightarrow> args" where
  "plain_args n =
     \<lparr>arg_name = Some n, arg_definition = Obj Plain [], arg_extends = None,
      arg_implements = None, arg_priority = None\<rparr>"

definition boot_registry :: cy where
  "boot_registry =
     \<lparr>window = [(''cycligent'',
         Obj Plain [(''Script'', Obj ClassCtor [(''cyName'', Str ''cycligent.Script'')]),
                    (''Imports'', Obj ClassCtor [(''cyName'', Str ''cycligent.Imports'')])])],
      classes = [''cycligent.Script'' \<mapsto> True, ''cycligent.Imports'' \<mapsto> True],
      interfaces = Map.empty,
      classesToProcess = [], interfacesToProcess = [], definitionsToProcess = [],
      priorityDefinitions = [], console = []\<rparr>"

definition boot_state :: state where
  "boot_state =
     \<lparr>registry = boot_registry, scriptsPending = 1, scriptsCount = 0, scripts = [],
      scriptsReady = False, domReady = False, pageReady = False, appLoadFinished = False,
      notifyFunctions = [], scaffoldingReady = False, events = []\<rparr>"

text \<open>The configuration of \<^verbatim>\<open>config.js\<close> and a page that is not under test.\<close>

definition the_config :: config where
  "the_config =
     \<lparr>debug_on = True, debug_args_check = True, debug_interfaces_check = True,
      debug_scripts = False, debug_startup = True,
      doNotCatchAllExceptionsOnLocalHost = False, startupScript = ''^main'',
      waitFor_dom = False, waitFor_page = False\<rparr>"

text \<open>The page of the examples below: a browser whose arrays inherit the properties that
  ECMAScript 5.1 gives to \<^verbatim>\<open>Array.prototype\<close> and \<^verbatim>\<open>Object.prototype\<close>.\<close>

definition Array_prototype :: "string list" where
  "Array_prototype =
     [''constructor'', ''toString'', ''toLocaleString'', ''concat'', ''join'', ''pop'', ''push'',
      ''reverse'', ''shift'', ''slice'', ''sort'', ''splice'', ''unshift'', ''indexOf'',
      ''lastIndexOf'', ''every'', ''some'', ''forEach'', ''map'', ''filter'', ''reduce'',
      ''reduceRight'', ''valueOf'', ''hasOwnProperty'', ''isPrototypeOf'',
      ''propertyIsEnumerable'', ''__proto__'']"

definition a_page :: host where
  "a_page =
     \<lparr>test = None, hostname_local = False, configOverride = False, doc_complete = False,
      url = (\<lambda>sid. sid), main = Returns Undefined, observer_throws = (\<lambda>f. False),
      array_names = Array_prototype\<rparr>"

definition interface_args :: "string \<Rightarrow> string option \<Rightarrow> args" where
  "interface_args n e =
     \<lparr>arg_name = Some n, arg_definition = Obj Plain [], arg_extends = e,
      arg_implements = None, arg_priority = None\<rparr>"

definition class_args :: "string \<Rightarrow> string option \<Rightarrow> string list option \<Rightarrow> args" where
  "class_args n e is =
     \<lparr>arg_name = Some n, arg_definition = Obj Plain [], arg_extends = e,
      arg_implements = is, arg_priority = None\<rparr>"

section \<open>The pass over the deferred interfaces\<close>

lemma this_missing: "interfaceMissing c this_cycligent = Inl TypeError"
  by (simp add: interfaceMissing_def this_cycligent_def)

lemma interfaceFor_throws:
  "Some a \<in> set rest \<Longrightarrow> interfaceFor rest index seen c = (Some TypeError, seen, c)"
  by (induction rest index seen c rule: interfaceFor.induct) (auto simp: this_missing)

lemma interfaceFor_nulls:
  "\<forall>e \<in> set rest. e = None \<Longrightarrow> interfaceFor rest index seen c = (None, seen, c)"
  by (induction rest index seen c rule: interfaceFor.induct) auto

text \<open>
  Claim C10. \<^verbatim>\<open>interfaceProcessDeferred\<close> hands \<^verbatim>\<open>this\<close>, the object \<^verbatim>\<open>cycligent\<close>, to
  \<^verbatim>\<open>interfaceMissing\<close>, and \<^verbatim>\<open>this.name.split\<close> is a \<^verbatim>\<open>TypeError\<close>. So whenever the queue
  of deferred interfaces holds an entry, the pass throws a \<^verbatim>\<open>TypeError\<close> and leaves the
  registry as it found it: the entry is still queued and not resolved, whatever the
  registry holds by then.
\<close>

theorem interfaceProcessDeferred_throws:
  "interfaceMissing c this_cycligent = Inl TypeError
   \<and> (Some a \<in> set (interfacesToProcess c) \<longrightarrow>
        interfaceProcessDeferred cfg c = (Some TypeError, c))"
  by (simp add: this_missing interfaceProcessDeferred_def interfaceFor_throws)

theorem interfaceProcessDeferred_throws_witness:
  "cycligent_interface the_config boot_registry (interface_args ''J'' (Some ''I''))
     = (None, boot_registry\<lparr>interfaces := [''J'' \<mapsto> False],
                 interfacesToProcess := [Some (interface_args ''J'' (Some ''I''))]\<rparr>)
   \<and> interfaceProcessDeferred the_config
        (boot_registry\<lparr>interfaces := [''J'' \<mapsto> False],
                 interfacesToProcess := [Some (interface_args ''J'' (Some ''I''))]\<rparr>)
     = (Some TypeError,
        boot_registry\<lparr>interfaces := [''J'' \<mapsto> False],
                 interfacesToProcess := [Some (interface_args ''J'' (Some ''I''))]\<rparr>)"
proof -
  have 1: "cycligent_interface the_config boot_registry (interface_args ''J'' (Some ''I''))
     = (None, boot_registry\<lparr>interfaces := [''J'' \<mapsto> False],
                 interfacesToProcess := [Some (interface_args ''J'' (Some ''I''))]\<rparr>)"
    by (simp add: cycligent_interface_def interfaceMissing_def nameMissing_def withValue_def
        interface_args_def boot_registry_def)
  show ?thesis
    using 1 interfaceProcessDeferred_throws[of
        "boot_registry\<lparr>interfaces := [''J'' \<mapsto> False],
                 interfacesToProcess := [Some (interface_args ''J'' (Some ''I''))]\<rparr>"
        "interface_args ''J'' (Some ''I'')" the_config]
    by simp
qed

section \<open>Registration scenarios\<close>

declare classProcessDeferred.simps [simp del]
declare interfaceDo.simps [simp del]
declare definitionProcessDeferred.simps [simp del]

lemma interfaceProcessDeferred_empty:
  "interfacesToProcess c = [] \<Longrightarrow> interfaceProcessDeferred cfg c = (None, c)"
  by (simp add: interfaceProcessDeferred_def interfaceDo.simps trimNulls_def)

lemma classProcessDeferred_empty:
  "classesToProcess c = [] \<Longrightarrow> classProcessDeferred cfg c = (None, c)"
  by (simp add: classProcessDeferred.simps trimNulls_def)

lemma classProcessDeferred_step:
  "classFor cfg (classesToProcess c) 0 False c = (None, True, c1) \<Longrightarrow>
   classProcessDeferred cfg c
     = classProcessDeferred cfg (c1\<lparr>classesToProcess := trimNulls (classesToProcess c1)\<rparr>)"
  by (subst classProcessDeferred.simps) simp

lemma classProcessDeferred_stop:
  "classFor cfg (classesToProcess c) 0 False c = (None, False, c1) \<Longrightarrow>
   classProcessDeferred cfg c = (None, c1\<lparr>classesToProcess := trimNulls (classesToProcess c1)\<rparr>)"
  by (subst classProcessDeferred.simps) simp

lemmas registry_defs =
  cycligent_interface_def cycligent_class_def interfaceMissing_def classMissing_def
  nameMissing_def withValue_def andThen_def interfaceProcess_def classProcess_def
  definitionGet_def definitionSet_def set_prop_def get_prop_def nameCheck_def className_of_def
  begins_uppercase_def classDebug_def extendsCheck_def unregistered_def say_def Let_def
  cyName_text_def

text \<open>The registry after the interface \<^verbatim>\<open>I\<close>, after the class \<^verbatim>\<open>C\<close> that extends \<^verbatim>\<open>B\<close> and
  implements \<^verbatim>\<open>I\<close>, after \<^verbatim>\<open>classProcess\<close> of \<^verbatim>\<open>B\<close>, and after the pass that follows it.\<close>

definition argC :: args where
  "argC = class_args ''C'' (Some ''B'') (Some [''I''])"

definition argB :: args where
  "argB = class_args ''B'' None None"

definition registry_I :: cy where
  "registry_I =
     boot_registry\<lparr>window := window boot_registry
                       @ [(''I'', Obj InterfaceCtor [(''cyName'', Str ''I'')])],
                   interfaces := [''I'' \<mapsto> True]\<rparr>"

definition registry_IC :: cy where
  "registry_IC =
     registry_I\<lparr>classes := (classes registry_I)(''C'' \<mapsto> False),
                classesToProcess := [Some argC]\<rparr>"

definition registry_ICB_processed :: cy where
  "registry_ICB_processed =
     registry_IC\<lparr>window := window registry_IC @ [(''B'', Obj ClassCtor [(''cyName'', Str ''B'')])],
                 classes := (classes registry_IC)(''B'' \<mapsto> True)\<rparr>"

definition registry_ICB :: cy where
  "registry_ICB =
     registry_ICB_processed
       \<lparr>window := window registry_ICB_processed @ [(''C'', Obj ClassCtor [(''cyName'', Str ''C'')])],
        classes := (classes registry_ICB_processed)(''C'' \<mapsto> True),
        classesToProcess := []\<rparr>"

lemmas scenario_defs =
  argC_def argB_def class_args_def interface_args_def registry_I_def registry_IC_def
  registry_ICB_processed_def registry_ICB_def boot_registry_def

lemma register_I: "cycligent_interface cfg boot_registry (interface_args ''I'' None) = (None, registry_I)"
  by (simp add: registry_defs scenario_defs interfaceProcessDeferred_empty)

lemma register_C: "cycligent_class cfg registry_I argC = (None, registry_IC)"
  by (simp add: registry_defs scenario_defs)

lemma C_waits_for_B: "classMissing registry_IC argC = Inr ''B''"
  by (simp add: registry_defs scenario_defs)

lemma B_is_ready: "classMissing registry_IC argB = Inr []"
  by (simp add: registry_defs scenario_defs)

lemma process_B: "classProcess cfg registry_IC argB = (None, registry_ICB_processed)"
  by (simp add: registry_defs scenario_defs)

lemma C_is_ready: "classMissing registry_ICB_processed argC = Inr []"
  by (simp add: registry_defs scenario_defs)

lemma get_B: "definitionGet registry_ICB_processed (Some ''B'') = Inr (Obj ClassCtor [(''cyName'', Str ''B'')])"
  by (simp add: scenario_defs definitionGet_def get_prop_def)

lemma get_I:
  "implementsGet registry_ICB_processed [''I''] = Inr [Obj InterfaceCtor [(''cyName'', Str ''I'')]]"
  by (simp add: scenario_defs definitionGet_def get_prop_def)

lemma check_B:
  "extendsCheck registry_ICB_processed ''C'' (Obj ClassCtor [(''cyName'', Str ''B'')])
     = registry_ICB_processed"
  by (simp add: extendsCheck_def unregistered_def get_prop_def scenario_defs)

lemma check_I:
  "interfacesCheck registry_ICB_processed ''C'' [Obj InterfaceCtor [(''cyName'', Str ''I'')]]
     = (None, registry_ICB_processed)"
  by (simp add: unregistered_def get_prop_def scenario_defs)

lemma debug_C:
  "classDebug cfg registry_ICB_processed ''C'' argC (Obj ClassCtor [(''cyName'', Str ''B'')])
     = (None, registry_ICB_processed)"
proof -
  have "arg_implements argC = Some [''I'']" by (simp add: argC_def class_args_def)
  then show ?thesis
    by (simp add: classDebug_def check_B get_I check_I withValue_def
        del: implementsGet.simps interfacesCheck.simps)
qed

lemma store_C:
  "definitionSet registry_ICB_processed (Some ''C'') (Obj ClassCtor [(''cyName'', Str ''C'')])
     = (None, registry_ICB_processed
               \<lparr>window := window registry_ICB_processed @ [(''C'', Obj ClassCtor [(''cyName'', Str ''C'')])]\<rparr>)"
  by (simp add: definitionSet_def set_prop_def scenario_defs)

lemma process_C:
  "classProcess cfg registry_ICB_processed argC = (None, registry_ICB\<lparr>classesToProcess := [Some argC]\<rparr>)"
proof -
  have a: "arg_name argC = Some ''C''" "arg_extends argC = Some ''B''"
    by (simp_all add: argC_def class_args_def)
  have n: "nameCheck registry_ICB_processed ''C'' = registry_ICB_processed"
    by (simp add: nameCheck_def className_of_def begins_uppercase_def)
  have q: "classesToProcess registry_ICB_processed = [Some argC]"
    by (simp add: registry_ICB_processed_def registry_IC_def)
  show ?thesis
    by (simp add: classProcess_def a n get_B debug_C store_C withValue_def andThen_def set_prop_def
        registry_ICB_def q)
qed

lemma pass_after_B: "classProcessDeferred cfg registry_ICB_processed = (None, registry_ICB)"
proof -
  have q: "classesToProcess registry_ICB_processed = [Some argC]"
    by (simp add: registry_ICB_processed_def registry_IC_def)
  have "classFor cfg (classesToProcess registry_ICB_processed) 0 False registry_ICB_processed
          = (None, True, registry_ICB\<lparr>classesToProcess := [None]\<rparr>)"
    by (simp add: q C_is_ready process_C)
  from classProcessDeferred_step[OF this]
  have "classProcessDeferred cfg registry_ICB_processed = classProcessDeferred cfg registry_ICB"
    by (simp add: trimNulls_def registry_ICB_def)
  also have "\<dots> = (None, registry_ICB)"
    by (rule classProcessDeferred_empty) (simp add: registry_ICB_def)
  finally show ?thesis .
qed

lemma interfaceProcess_extends:
  "given (arg_extends a) \<Longrightarrow> interfaceProcess c a = (Some TypeError, c)"
proof -
  assume g: "given (arg_extends a)"
  have "extend_call v = Inl e \<Longrightarrow> e = TypeError" for v e
    by (auto elim: extend_call.elims)
  moreover have "get_path v ks = Inl e \<Longrightarrow> e = TypeError" for v ks e
    by (induction v ks rule: get_path.induct) (auto simp: get_prop_def split: if_splits sum.splits)
  ultimately show ?thesis
    using g
    by (auto simp: interfaceProcess_def withValue_def set_prop_def definitionGet_def
        split: sum.splits option.splits)
qed

text \<open>
  Claim C3. Registration and resolution are claimed never to throw; in particular the
  registration of an interface with \<open>extends\<close> that is processed at once. The code throws
  there: after the interface \<^verbatim>\<open>I\<close> is registered, the registration of \<^verbatim>\<open>J\<close> extending
  \<^verbatim>\<open>I\<close> calls \<^verbatim>\<open>interfaceProcess\<close>, which drops the result of \<^verbatim>\<open>extend\<close> and then assigns
  \<^verbatim>\<open>cyName\<close> on \<^verbatim>\<open>undefined\<close>. The \<^verbatim>\<open>TypeError\<close> leaves \<^verbatim>\<open>cycligent.interface\<close>, and \<^verbatim>\<open>J\<close> is
  neither stored nor entered into the table of interfaces.
\<close>

theorem interface_extends_throws:
  "cycligent_interface cfg boot_registry (interface_args ''I'' None) = (None, registry_I)
   \<and> interfaceMissing registry_I (interface_args ''J'' (Some ''I'')) = Inr []
   \<and> cycligent_interface cfg registry_I (interface_args ''J'' (Some ''I''))
       = (Some TypeError, registry_I)"
  by (simp add: register_I) (simp add: registry_defs scenario_defs)

text \<open>
  Claim C4. The interface \<^verbatim>\<open>I\<close> is registered with no dependencies; the class \<^verbatim>\<open>C\<close>, which
  extends the unregistered \<^verbatim>\<open>B\<close> and implements \<^verbatim>\<open>I\<close>, is then deferred: it is entered as
  not processed and queued, and what it waits for is \<^verbatim>\<open>B\<close>. The registration of \<^verbatim>\<open>B\<close> with
  no dependencies first processes \<^verbatim>\<open>B\<close>, with \<^verbatim>\<open>C\<close> still queued, and the pass over the
  deferred classes that the same call runs next processes \<^verbatim>\<open>C\<close> and empties the queue.
\<close>

theorem deferred_class_resolves_with_B:
  "cycligent_interface cfg boot_registry (interface_args ''I'' None) = (None, registry_I)
   \<and> cycligent_class cfg registry_I argC = (None, registry_IC)
   \<and> classMissing registry_IC argC = Inr ''B''
   \<and> classes registry_IC ''C'' = Some False
   \<and> classesToProcess registry_IC = [Some argC]
   \<and> definitionGet registry_IC (Some ''C'') = Inr Undefined
   \<and> classProcess cfg registry_IC argB = (None, registry_ICB_processed)
   \<and> classes registry_ICB_processed ''B'' = Some True
   \<and> classes registry_ICB_processed ''C'' = Some False
   \<and> classProcessDeferred cfg registry_ICB_processed = (None, registry_ICB)
   \<and> cycligent_class cfg registry_IC argB = (None, registry_ICB)
   \<and> classes registry_ICB ''B'' = Some True
   \<and> classes registry_ICB ''C'' = Some True
   \<and> classesToProcess registry_ICB = []
   \<and> definitionGet registry_ICB (Some ''B'') = Inr (Obj ClassCtor [(''cyName'', Str ''B'')])
   \<and> definitionGet registry_ICB (Some ''C'') = Inr (Obj ClassCtor [(''cyName'', Str ''C'')])"
proof -
  have "cycligent_class cfg registry_IC argB = (None, registry_ICB)"
    by (simp add: cycligent_class_def withValue_def andThen_def B_is_ready process_B pass_after_B)
  moreover have "classes registry_IC ''C'' = Some False" "classesToProcess registry_IC = [Some argC]"
    "definitionGet registry_IC (Some ''C'') = Inr Undefined"
    by (simp_all add: scenario_defs definitionGet_def get_prop_def)
  moreover have "classes registry_ICB_processed ''B'' = Some True"
    "classes registry_ICB_processed ''C'' = Some False"
    by (simp_all add: scenario_defs)
  moreover have "classes registry_ICB ''B'' = Some True" "classes registry_ICB ''C'' = Some True"
    "classesToProcess registry_ICB = []"
    "definitionGet registry_ICB (Some ''B'') = Inr (Obj ClassCtor [(''cyName'', Str ''B'')])"
    "definitionGet registry_ICB (Some ''C'') = Inr (Obj ClassCtor [(''cyName'', Str ''C'')])"
    by (simp_all add: scenario_defs definitionGet_def get_prop_def)
  ultimately show ?thesis
    by (simp add: register_I register_C C_waits_for_B process_B pass_after_B)
qed


section \<open>The naming convention of classes\<close>

fun is_obj :: "jsval \<Rightarrow> bool" where
  "is_obj (Obj k ps) = True"
| "is_obj v = False"


fun objects_along :: "jsval \<Rightarrow> string list \<Rightarrow> bool" where
  "objects_along v [] = is_obj v"
| "objects_along v (k # ks) = (is_obj v \<and> objects_along (read_prop v k) ks)"

lemma read_put: "is_obj v \<Longrightarrow> read_prop (put v k x) k = x"
  by (cases v) (simp_all add: update_conv')

lemma is_obj_put: "is_obj (put v k x) = is_obj v"
  by (cases v) simp_all

lemma is_obj_not_nullish: "is_obj v \<Longrightarrow> \<not> nullish v"
  by (cases v) simp_all

lemma set_then_get:
  "objects_along v (butlast ks) \<Longrightarrow> ks \<noteq> [] \<Longrightarrow>
   \<exists>v'. set_path v ks x = Inr v' \<and> is_obj v' \<and> get_path v' ks = Inr x"
proof (induction v ks x rule: set_path.induct)
  case (1 v x)
  then show ?case by simp
next
  case (2 v k x)
  then show ?case
    by (simp add: set_prop_def get_prop_def is_obj_not_nullish is_obj_put read_put)
next
  case (3 v k k' ks x)
  from 3(2) have obj: "is_obj v" and rest: "objects_along (read_prop v k) (butlast (k' # ks))"
    by simp_all
  have g: "get_prop v k = Inr (read_prop v k)"
    using obj by (simp add: get_prop_def is_obj_not_nullish)
  from 3(1)[OF g rest] obtain c' where
    c': "set_path (read_prop v k) (k' # ks) x = Inr c'" "get_path c' (k' # ks) = Inr x"
    by auto
  show ?case
    using obj g c' by (simp add: is_obj_put read_put get_prop_def is_obj_not_nullish)
qed
























section \<open>The loader's counter\<close>

definition settles :: "state \<Rightarrow> nat" where
  "settles s = count_list (events s) AllScriptsLoaded"

definition starts :: "state \<Rightarrow> nat" where
  "starts s = count_list (events s) MainCalled"

definition unloaded :: "state \<Rightarrow> nat" where
  "unloaded s = length (filter (\<lambda>(sid, me). \<not> loaded me) (scripts s))"

definition finalizes :: "state \<Rightarrow> state \<Rightarrow> bool" where
  "finalizes s s' \<longleftrightarrow>
     scriptsPending s' = scriptsPending s \<and> scriptsCount s' = scriptsCount s
     \<and> scripts s' = scripts s \<and> scriptsReady s' = scriptsReady s
     \<and> domReady s' = domReady s \<and> pageReady s' = pageReady s
     \<and> notifyFunctions s' = notifyFunctions s
     \<and> settles s' = settles s \<and> starts s \<le> starts s'
     \<and> (\<exists>more. events s' = events s @ more)
     \<and> (appLoadFinished s \<longrightarrow> appLoadFinished s' \<and> starts s' = starts s)"

lemma finalizes_refl: "finalizes s s"
  by (simp add: finalizes_def)

lemma finalizes_trans: "finalizes a b \<Longrightarrow> finalizes b c \<Longrightarrow> finalizes a c"
  by (auto simp: finalizes_def)

lemma finalizes_andThen:
  "finalizes s (snd r) \<Longrightarrow> (\<And>t. finalizes t (snd (f t))) \<Longrightarrow> finalizes s (snd (andThen r f))"
proof (cases r)
  case (Pair e t)
  assume a: "finalizes s (snd r)" "\<And>t. finalizes t (snd (f t))"
  show ?thesis
    using Pair a(1) finalizes_trans[OF _ a(2), of s t]
    by (cases e) (simp_all add: andThen_def)
qed

lemma finalizes_inRegistry: "finalizes s (snd (inRegistry f s))"
  by (simp add: inRegistry_def finalizes_def settles_def starts_def split: prod.splits)

lemma finalizes_tell: "finalizes s (tell m s)"
  by (simp add: tell_def finalizes_def settles_def starts_def)

lemma finalizes_tryCatch: "finalizes s (snd r) \<Longrightarrow> finalizes s (snd (tryCatch r))"
proof (cases r)
  case (Pair e t)
  assume "finalizes s (snd r)"
  then show ?thesis
    using Pair finalizes_trans[OF _ finalizes_tell, of s t]
    by (cases e) (simp_all add: tryCatch_def)
qed

lemma finalizes_notifyFor:
  "finalizes s (snd (notifyFor h fs s))"
proof (induction fs arbitrary: s)
  case Nil
  show ?case by (simp add: finalizes_refl)
next
  case (Cons f fs)
  have e: "finalizes s (emit (Notified f) s)"
    by (simp add: emit_def finalizes_def settles_def starts_def)
  show ?case
    using e finalizes_trans[OF e Cons.IH] by simp
qed

lemma finalizes_mainGo: "finalizes s (snd (mainGo h s))"
proof -
  have fin: "finalizes t (snd (notifyFor h (notifyFunctions t) (t\<lparr>appLoadFinished := True\<rparr>)))" for t
  proof -
    have "finalizes t (t\<lparr>appLoadFinished := True\<rparr>)"
      by (simp add: finalizes_def settles_def starts_def)
    from finalizes_trans[OF this finalizes_notifyFor]
    show ?thesis .
  qed
  have first: "finalizes s (snd (if test h \<noteq> None then (None, s\<lparr>scaffoldingReady := True\<rparr>)
        else if appLoadFinished s = False then
          (case main h of
             Returns v \<Rightarrow> (None, emit MainCalled s)
           | Throws \<Rightarrow> (Some UserException, emit MainCalled s))
        else (None, s)))"
    by (auto simp: finalizes_def settles_def starts_def emit_def split: fbody.splits)
  show ?thesis
    unfolding mainGo_def by (rule finalizes_andThen[OF first fin])
qed

lemma finalizes_executeMain: "finalizes s (snd (executeMain cfg h s))"
  unfolding executeMain_def
  by (intro finalizes_andThen finalizes_inRegistry)
     (simp add: finalizes_mainGo finalizes_tryCatch)

lemma finalizes_readyCheck: "finalizes s (snd (readyCheck cfg h s))"
proof -
  have t: "finalizes s t \<Longrightarrow> finalizes s (tell m t)" for t m
    by (rule finalizes_trans[OF _ finalizes_tell])
  have x: "finalizes s t \<Longrightarrow> finalizes s (snd (executeMain cfg h t))" for t
    by (rule finalizes_trans[OF _ finalizes_executeMain])
  show ?thesis
    by (simp add: readyCheck_def Let_def finalizes_refl t x)
qed

lemma finalizes_allScriptsLoaded2: "finalizes s (snd (allScriptsLoaded2 cfg h s))"
  unfolding allScriptsLoaded2_def
  by (intro finalizes_andThen finalizes_inRegistry finalizes_readyCheck)

lemma finalizes_createAssumedDefinitions: "finalizes s (snd (createAssumedDefinitions cfg h s))"
  unfolding createAssumedDefinitions_def
  by (intro finalizes_andThen finalizes_inRegistry finalizes_allScriptsLoaded2)





text \<open>An id can be stored in the array when it is neither \<^verbatim>\<open>length\<close> nor the name of a
  property that the array inherits. For such an id the array lists exactly the scripts
  requested.\<close>

definition storable :: "host \<Rightarrow> string \<Rightarrow> bool" where
  "storable h sid \<longleftrightarrow> sid \<noteq> ''length'' \<and> sid \<notin> set (array_names h)"

lemma listed_storable: "storable h sid \<Longrightarrow> listed h s sid = (map_of (scripts s) sid \<noteq> None)"
  by (simp add: listed_def storable_def)

lemma Import_pending:
  "scriptsPending (snd (Import cfg h sid s))
     = scriptsPending s + (if test h \<noteq> Some False \<and> \<not> listed h s sid then 1 else 0)"
  by (simp add: Import_def tell_def Let_def)

lemma Import_counts:
  "test h \<noteq> Some False \<Longrightarrow> storable h sid \<Longrightarrow>
   scriptsPending (snd (Import cfg h sid s))
     = scriptsPending s + (if map_of (scripts s) sid = None then 1 else 0)"
  by (simp add: Import_pending listed_storable)





lemma settles_emit_other: "e \<noteq> AllScriptsLoaded \<Longrightarrow> settles (emit e s) = settles s"
  by (simp add: settles_def emit_def)

lemma settles_tell: "settles (tell m s) = settles s"
  by (simp add: settles_def tell_def)

lemma allScriptsLoaded_frame:
  "scriptsPending (snd (allScriptsLoaded cfg h s)) = scriptsPending s
   \<and> scriptsCount (snd (allScriptsLoaded cfg h s)) = scriptsCount s
   \<and> scripts (snd (allScriptsLoaded cfg h s)) = scripts s
   \<and> scriptsReady (snd (allScriptsLoaded cfg h s))
   \<and> settles (snd (allScriptsLoaded cfg h s)) = settles s + 1
   \<and> (\<exists>more. events (snd (allScriptsLoaded cfg h s)) = events s @ more)"
proof -
  define s3 where "s3 = (let s0 = emit AllScriptsLoaded s;
          s1 = (if debug_scripts cfg
                then tell (ConsoleInfo (number_text (scriptsCount s0) @ '' script(s) loaded.'')) s0
                else s0);
          s2 = s1\<lparr>scriptsReady := True\<rparr>
      in (if debug_startup cfg
                then tell (ConsoleInfo ''Running module initialization code.'') s2 else s2))"
  have base: "scriptsPending s3 = scriptsPending s" "scriptsCount s3 = scriptsCount s"
    "scripts s3 = scripts s" "scriptsReady s3" "settles s3 = settles s + 1"
    "events s3 = events s @ [AllScriptsLoaded]"
    by (simp_all add: s3_def Let_def emit_def tell_def settles_def)
  have run: "allScriptsLoaded cfg h s =
      (if definitionsToProcess (registry s3) \<noteq> [] then createAssumedDefinitions cfg h s3
         else allScriptsLoaded2 cfg h s3)"
    by (simp add: allScriptsLoaded_def s3_def Let_def)
  have "finalizes s3 (snd (allScriptsLoaded cfg h s))"
    by (simp add: run finalizes_createAssumedDefinitions finalizes_allScriptsLoaded2)
  then show ?thesis
    using base by (auto simp: finalizes_def)
qed

lemma Imports_scriptLoaded_cases:
  "scripts (snd (Imports_scriptLoaded cfg h s)) = scripts s
   \<and> (\<exists>more. events (snd (Imports_scriptLoaded cfg h s)) = events s @ more)
   \<and> ((fst (Imports_scriptLoaded cfg h s) \<noteq> None
        \<and> scriptsPending (snd (Imports_scriptLoaded cfg h s)) = scriptsPending s
        \<and> events (snd (Imports_scriptLoaded cfg h s)) = events s
        \<and> scriptsReady (snd (Imports_scriptLoaded cfg h s)) = scriptsReady s)
      \<or> (fst (Imports_scriptLoaded cfg h s) = None
        \<and> scriptsPending (snd (Imports_scriptLoaded cfg h s)) = scriptsPending s - 1
        \<and> scriptsPending s \<noteq> 1
        \<and> events (snd (Imports_scriptLoaded cfg h s)) = events s
        \<and> scriptsReady (snd (Imports_scriptLoaded cfg h s)) = scriptsReady s)
      \<or> (scriptsPending (snd (Imports_scriptLoaded cfg h s)) = scriptsPending s - 1
        \<and> scriptsPending s = 1
        \<and> settles (snd (Imports_scriptLoaded cfg h s)) = settles s + 1))"
proof -
  obtain r1 c1 where p1: "classProcessDeferred cfg (registry s) = (r1, c1)"
    by (cases "classProcessDeferred cfg (registry s)")
  show ?thesis
  proof (cases r1)
    case (Some e)
    then show ?thesis
      using p1 by (simp add: Imports_scriptLoaded_def inRegistry_def andThen_def)
  next
    case None
    obtain r2 c2 where p2: "interfaceProcessDeferred cfg c1 = (r2, c2)"
      by (cases "interfaceProcessDeferred cfg c1")
    show ?thesis
    proof (cases r2)
      case (Some e)
      then show ?thesis
        using p1 p2 None by (simp add: Imports_scriptLoaded_def inRegistry_def andThen_def)
    next
      case n2: None
      let ?s3 = "s\<lparr>registry := c2, scriptsPending := scriptsPending s - 1\<rparr>"
      have run: "Imports_scriptLoaded cfg h s =
          (if scriptsPending s = 1 then allScriptsLoaded cfg h ?s3 else (None, ?s3))"
        using p1 p2 None n2 by (simp add: Imports_scriptLoaded_def inRegistry_def andThen_def Let_def)
      show ?thesis
      proof (cases "scriptsPending s = 1")
        case True
        then show ?thesis
          using run allScriptsLoaded_frame[of cfg h ?s3] by (simp add: settles_def)
      next
        case False
        then show ?thesis using run by simp
      qed
    qed
  qed
qed





















section \<open>The call of the entry point\<close>

lemma notifyFor_all:
  "\<forall>f \<in> set fs. \<not> observer_throws h f \<Longrightarrow>
   notifyFor h fs s = (None, s\<lparr>events := events s @ map Notified fs\<rparr>)"
  by (induction fs arbitrary: s) (simp_all add: emit_def)

lemma mainGo_throws:
  "test h = None \<Longrightarrow> \<not> appLoadFinished s \<Longrightarrow> main h = Throws \<Longrightarrow>
   mainGo h s = (Some UserException, emit MainCalled s)"
  by (simp add: mainGo_def andThen_def)

lemma mainGo_returns:
  "test h = None \<Longrightarrow> \<not> appLoadFinished s \<Longrightarrow> main h = Returns v \<Longrightarrow>
   \<forall>f \<in> set (notifyFunctions s). \<not> observer_throws h f \<Longrightarrow>
   mainGo h s = (None, s\<lparr>appLoadFinished := True,
                          events := events s @ MainCalled # map Notified (notifyFunctions s)\<rparr>)"
  by (simp add: mainGo_def andThen_def emit_def notifyFor_all)

lemma executeMain_nothing_queued:
  "interfacesToProcess (registry s) = [] \<Longrightarrow> classesToProcess (registry s) = [] \<Longrightarrow>
   executeMain cfg h s
     = (if doNotCatchAllExceptionsOnLocalHost cfg \<and> hostname_local h then mainGo h s
        else tryCatch (mainGo h s))"
  by (simp add: executeMain_def inRegistry_def andThen_def)

lemma allScriptsLoaded2_no_priorities:
  assumes "priorityDefinitions (registry s) = []"
  shows "allScriptsLoaded2 cfg h s = readyCheck cfg h s"
proof -
  have "(registry s)\<lparr>priorityDefinitions := []\<rparr> = registry s"
    using assms by (cases "registry s") simp
  then have eq: "s\<lparr>registry := (registry s)\<lparr>priorityDefinitions := []\<rparr>\<rparr> = s"
    by simp
  have "allScriptsLoaded2 cfg h s
          = readyCheck cfg h (s\<lparr>registry := (registry s)\<lparr>priorityDefinitions := []\<rparr>\<rparr>)"
    by (simp add: allScriptsLoaded2_def define_execute_def inRegistry_def andThen_def assms)
  also have "\<dots> = readyCheck cfg h s"
    by (simp only: eq)
  finally show ?thesis .
qed

definition quiet :: "state \<Rightarrow> bool" where
  "quiet s \<longleftrightarrow>
     classesToProcess (registry s) = [] \<and> interfacesToProcess (registry s) = []
     \<and> definitionsToProcess (registry s) = [] \<and> priorityDefinitions (registry s) = []"

lemma Imports_scriptLoaded_quiet:
  "quiet s \<Longrightarrow>
   Imports_scriptLoaded cfg h s
     = (if scriptsPending s = 1
        then allScriptsLoaded cfg h (s\<lparr>scriptsPending := 0\<rparr>)
        else (None, s\<lparr>scriptsPending := scriptsPending s - 1\<rparr>))"
  by (simp add: quiet_def Imports_scriptLoaded_def inRegistry_def andThen_def Let_def
      classProcessDeferred_empty interfaceProcessDeferred_empty)


text \<open>The start of the application with two observers registered, on a page whose
  \<^verbatim>\<open>main\<close> returns or throws.\<close>

definition observed :: state where
  "observed = notify 2 (notify 1 boot_state)"

definition throwing_page :: host where
  "throwing_page = a_page\<lparr>main := Throws\<rparr>"

definition ready_messages :: "log list" where
  "ready_messages =
     [ConsoleInfo ''Running module initialization code.'',
      ConsoleInfo ''Scripts ready, DOM ready, page ready.'',
      ConsoleInfo ''Cycligent starting application.'']"

definition main_loaded :: "(string \<times> script) list" where
  "main_loaded = [(''^main'', \<lparr>scriptId = ''^main'', loaded = True, interval = False\<rparr>)]"

definition page_with :: "fbody \<Rightarrow> host" where
  "page_with m = a_page\<lparr>main := m\<rparr>"

lemma load_observed:
  "load the_config (page_with m) observed
     = (None, observed\<lparr>domReady := True, pageReady := True, scriptsCount := 1,
          scripts := [(''^main'', \<lparr>scriptId = ''^main'', loaded = False, interval = True\<rparr>)]\<rparr>)"
  by (simp add: load_def the_config_def andThen_def Import_def listed_def Array_prototype_def Let_def observed_def notify_def
      boot_state_def page_with_def a_page_def)

definition settled_observed :: state where
  "settled_observed =
     observed\<lparr>domReady := True, pageReady := True, scriptsReady := True, scriptsCount := 1,
              scriptsPending := 0, scripts := main_loaded, events := [AllScriptsLoaded],
              registry := boot_registry\<lparr>console := ready_messages\<rparr>\<rparr>"

lemma settle_observed:
  "deliver the_config (page_with m) (ScriptLoad ''^main'') (snd (load the_config (page_with m) observed))
     = uncaught (tryCatch (mainGo (page_with m) settled_observed))"
proof -
  let ?s1 = "observed\<lparr>domReady := True, pageReady := True, scriptsCount := 1,
          scripts := main_loaded\<rparr>"
  have q: "quiet ?s1" by (simp add: quiet_def observed_def notify_def boot_state_def boot_registry_def)
  have p: "scriptsPending ?s1 = 1" by (simp add: observed_def notify_def boot_state_def)
  have d: "deliver the_config (page_with m) (ScriptLoad ''^main'')
             (snd (load the_config (page_with m) observed))
      = uncaught (Imports_scriptLoaded the_config (page_with m) ?s1)"
    unfolding load_observed
    by (simp add: Script_scriptLoaded_def the_config_def Let_def main_loaded_def)
  have a: "allScriptsLoaded the_config (page_with m) (?s1\<lparr>scriptsPending := 0\<rparr>)
      = executeMain the_config (page_with m) settled_observed"
    by (simp add: allScriptsLoaded_def Let_def emit_def tell_def say_def
        allScriptsLoaded2_no_priorities readyCheck_def ready_text_def ready_messages_def
        the_config_def a_page_def page_with_def observed_def notify_def boot_state_def
        boot_registry_def settled_observed_def)
  have e: "executeMain the_config (page_with m) settled_observed
      = tryCatch (mainGo (page_with m) settled_observed)"
    by (subst executeMain_nothing_queued)
       (simp_all add: settled_observed_def boot_registry_def the_config_def)
  show ?thesis
    unfolding d by (simp add: Imports_scriptLoaded_quiet[OF q] p a e)
qed

text \<open>
  Claim C2. After the entry point is invoked, the flag \<^verbatim>\<open>appLoadFinished\<close> is to be set
  and every observer notified once, in the order of registration, also when \<^verbatim>\<open>main\<close>
  throws and the exception is caught. The code does so when \<^verbatim>\<open>main\<close> returns: with the
  observers 1 and 2 registered, the events are the settling, the call of \<^verbatim>\<open>main\<close> and the
  two notifications in order, and \<^verbatim>\<open>finished()\<close> is true. When \<^verbatim>\<open>main\<close> throws, the
  exception leaves \<^verbatim>\<open>mainGo\<close> before the flag is set: it is caught and written to the
  console, no observer is notified and \<^verbatim>\<open>finished()\<close> stays false.
\<close>

theorem main_throws_skips_finish:
  "events (deliver the_config (page_with (Returns Undefined)) (ScriptLoad ''^main'')
             (snd (load the_config (page_with (Returns Undefined)) observed)))
     = [AllScriptsLoaded, MainCalled, Notified 1, Notified 2]
   \<and> finished (deliver the_config (page_with (Returns Undefined)) (ScriptLoad ''^main'')
                 (snd (load the_config (page_with (Returns Undefined)) observed)))
   \<and> events (deliver the_config (page_with Throws) (ScriptLoad ''^main'')
               (snd (load the_config (page_with Throws) observed)))
     = [AllScriptsLoaded, MainCalled]
   \<and> \<not> finished (deliver the_config (page_with Throws) (ScriptLoad ''^main'')
                   (snd (load the_config (page_with Throws) observed)))
   \<and> last (console (registry (deliver the_config (page_with Throws) (ScriptLoad ''^main'')
                                 (snd (load the_config (page_with Throws) observed)))))
     = ConsoleException UserException"
proof -
  have s: "test (page_with m) = None" "\<not> appLoadFinished settled_observed"
    "notifyFunctions settled_observed = [1, 2]" "events settled_observed = [AllScriptsLoaded]"
    "main (page_with m) = m" "\<not> observer_throws (page_with m) f" for m f
    by (simp_all add: page_with_def a_page_def settled_observed_def observed_def notify_def
        boot_state_def)
  have good: "mainGo (page_with (Returns Undefined)) settled_observed
      = (None, settled_observed\<lparr>appLoadFinished := True,
                 events := [AllScriptsLoaded, MainCalled, Notified 1, Notified 2]\<rparr>)"
    using mainGo_returns[of "page_with (Returns Undefined)" settled_observed Undefined] s
    by simp
  have bad: "mainGo (page_with Throws) settled_observed
      = (Some UserException, emit MainCalled settled_observed)"
    using mainGo_throws[of "page_with Throws" settled_observed] s by simp
  show ?thesis
    unfolding settle_observed good bad
    by (simp add: tryCatch_def uncaught_def finished_def emit_def tell_def say_def s)
qed


lemma settle_calls_throwing_main:
  assumes "quiet s" "scriptsPending s = 1" "domReady s" "pageReady s" "\<not> appLoadFinished s"
    and "test h = None" "main h = Throws"
    and "\<not> (doNotCatchAllExceptionsOnLocalHost cfg \<and> hostname_local h)"
  shows "fst (Imports_scriptLoaded cfg h s) = None
       \<and> events (snd (Imports_scriptLoaded cfg h s)) = events s @ [AllScriptsLoaded, MainCalled]
       \<and> \<not> appLoadFinished (snd (Imports_scriptLoaded cfg h s))
       \<and> quiet (snd (Imports_scriptLoaded cfg h s))
       \<and> scriptsPending (snd (Imports_scriptLoaded cfg h s)) = 0
       \<and> scripts (snd (Imports_scriptLoaded cfg h s)) = scripts s
       \<and> scriptsReady (snd (Imports_scriptLoaded cfg h s))
       \<and> domReady (snd (Imports_scriptLoaded cfg h s))
       \<and> pageReady (snd (Imports_scriptLoaded cfg h s))"
proof -
  define s3 where "s3 = (let s0 = emit AllScriptsLoaded (s\<lparr>scriptsPending := 0\<rparr>);
          s1 = (if debug_scripts cfg
                then tell (ConsoleInfo (number_text (scriptsCount s0) @ '' script(s) loaded.'')) s0
                else s0);
          s2 = s1\<lparr>scriptsReady := True\<rparr>
      in (if debug_startup cfg
                then tell (ConsoleInfo ''Running module initialization code.'') s2 else s2))"
  have s3: "quiet s3" "scriptsPending s3 = 0" "domReady s3" "pageReady s3" "scriptsReady s3"
    "\<not> appLoadFinished s3" "events s3 = events s @ [AllScriptsLoaded]" "scripts s3 = scripts s"
    using assms(1-5) by (simp_all add: s3_def Let_def quiet_def emit_def tell_def say_def)
  have 1: "Imports_scriptLoaded cfg h s = allScriptsLoaded2 cfg h s3"
    using assms(1,2)
    by (simp add: Imports_scriptLoaded_quiet)
       (simp add: allScriptsLoaded_def s3_def Let_def quiet_def emit_def tell_def say_def)
  define s4 where "s4 = (let s1 = (if debug_startup cfg
                then tell (ConsoleInfo (''Scripts '' @ ready_text (scriptsReady s3) @ ''ready, ''
                             @ ''DOM '' @ ready_text (domReady s3) @ ''ready, ''
                             @ ''page '' @ ready_text (pageReady s3) @ ''ready.'')) s3
                else s3);
            s2 = (if configOverride h
                      then tell (ConsoleLog ''Configuration override was present in markup.'') s1
                      else s1)
        in (if debug_startup cfg
                      then tell (ConsoleInfo ''Cycligent starting application.'') s2 else s2))"
  have s4: "quiet s4" "scriptsPending s4 = 0" "domReady s4" "pageReady s4" "scriptsReady s4"
    "\<not> appLoadFinished s4" "events s4 = events s @ [AllScriptsLoaded]" "scripts s4 = scripts s"
    using s3 by (simp_all add: s4_def Let_def quiet_def tell_def say_def)
  have 2: "allScriptsLoaded2 cfg h s3 = executeMain cfg h s4"
    using s3 by (simp add: allScriptsLoaded2_no_priorities quiet_def readyCheck_def Let_def
        tell_def s4_def)
  have 3: "executeMain cfg h s4 = tryCatch (mainGo h s4)"
    using s4(1) assms(8) by (auto simp: executeMain_nothing_queued quiet_def)
  have 4: "mainGo h s4 = (Some UserException, emit MainCalled s4)"
    using mainGo_throws[OF assms(6) s4(6) assms(7)] .
  show ?thesis
    unfolding 1 2 3 4 using s4
    by (simp add: tryCatch_def tell_def say_def emit_def quiet_def)
qed


definition after_throw :: state where
  "after_throw =
     deliver the_config (page_with Throws) (ScriptLoad ''^main'')
       (snd (load the_config (page_with Throws) boot_state))"

definition late_import :: state where
  "late_import = snd (Import the_config (page_with Throws) ''late'' after_throw)"

lemma load_boot:
  "load the_config (page_with m) boot_state
     = (None, boot_state\<lparr>domReady := True, pageReady := True, scriptsCount := 1,
          scripts := [(''^main'', \<lparr>scriptId = ''^main'', loaded = False, interval = True\<rparr>)]\<rparr>)"
  by (simp add: load_def the_config_def andThen_def Import_def listed_def Array_prototype_def Let_def
      boot_state_def page_with_def a_page_def)

lemma page_with_facts:
  "test (page_with m) = None" "main (page_with m) = m"
  "\<not> (doNotCatchAllExceptionsOnLocalHost the_config \<and> hostname_local (page_with m))"
  "\<not> debug_scripts the_config" "array_names (page_with m) = Array_prototype"
  by (simp_all add: page_with_def a_page_def the_config_def)

lemma after_throw_facts:
  "events after_throw = [AllScriptsLoaded, MainCalled]" "\<not> appLoadFinished after_throw"
  "quiet after_throw" "scriptsPending after_throw = 0" "scripts after_throw = main_loaded"
  "scriptsReady after_throw" "domReady after_throw" "pageReady after_throw"
proof -
  let ?s1 = "boot_state\<lparr>domReady := True, pageReady := True, scriptsCount := 1,
          scripts := main_loaded\<rparr>"
  have d: "after_throw = uncaught (Imports_scriptLoaded the_config (page_with Throws) ?s1)"
    unfolding after_throw_def load_boot
    by (simp add: Script_scriptLoaded_def the_config_def Let_def main_loaded_def)
  have pre: "quiet ?s1" "scriptsPending ?s1 = 1" "domReady ?s1" "pageReady ?s1"
    "\<not> appLoadFinished ?s1" "events ?s1 = []" "scripts ?s1 = main_loaded"
    by (simp_all add: quiet_def boot_state_def boot_registry_def)
  note run = settle_calls_throwing_main[OF pre(1-5) page_with_facts(1,2,3)]
  obtain r t where rt: "Imports_scriptLoaded the_config (page_with Throws) ?s1 = (r, t)"
    by (cases "Imports_scriptLoaded the_config (page_with Throws) ?s1")
  with run have r: "r = None" by simp
  have at: "after_throw = t" by (simp add: d rt r uncaught_def)
  show "events after_throw = [AllScriptsLoaded, MainCalled]" "\<not> appLoadFinished after_throw"
    "quiet after_throw" "scriptsPending after_throw = 0" "scripts after_throw = main_loaded"
    "scriptsReady after_throw" "domReady after_throw" "pageReady after_throw"
    using run pre(6,7) unfolding at rt by simp_all
qed

text \<open>
  Claim C5. \<^verbatim>\<open>main\<close> is to run at most once, however often \<^verbatim>\<open>readyCheck\<close> finds the three
  flags true. \<^verbatim>\<open>mainGo\<close> guards the call with \<^verbatim>\<open>appLoadFinished\<close>, which it sets only
  after \<^verbatim>\<open>main\<close> has returned. When \<^verbatim>\<open>main\<close> throws, the flag stays false, and the next
  settling calls \<^verbatim>\<open>main\<close> again: here the startup script loads, \<^verbatim>\<open>main\<close> throws, a later
  import of the script \<^verbatim>\<open>late\<close> completes, and \<^verbatim>\<open>main\<close> has been called twice.
\<close>

theorem main_runs_again_after_throw:
  "scriptsReady after_throw \<and> domReady after_throw \<and> pageReady after_throw
   \<and> starts after_throw = 1
   \<and> starts (deliver the_config (page_with Throws) (ScriptLoad ''late'') late_import) = 2"
proof -
  have li: "late_import = after_throw\<lparr>scriptsPending := 1, scriptsCount := scriptsCount after_throw + 1,
       scripts := main_loaded @ [(''late'', \<lparr>scriptId = ''late'', loaded = False, interval = True\<rparr>)]\<rparr>"
    by (simp add: late_import_def Import_def listed_def Array_prototype_def page_with_facts after_throw_facts Let_def main_loaded_def)
  let ?s1 = "after_throw\<lparr>scriptsPending := 1, scriptsCount := scriptsCount after_throw + 1,
       scripts := main_loaded @ [(''late'', \<lparr>scriptId = ''late'', loaded = True, interval = False\<rparr>)]\<rparr>"
  have d: "deliver the_config (page_with Throws) (ScriptLoad ''late'') late_import
      = uncaught (Imports_scriptLoaded the_config (page_with Throws) ?s1)"
    unfolding li
    by (simp add: Script_scriptLoaded_def page_with_facts Let_def main_loaded_def)
  have pre: "quiet ?s1" "scriptsPending ?s1 = 1" "domReady ?s1" "pageReady ?s1"
    "\<not> appLoadFinished ?s1" "events ?s1 = [AllScriptsLoaded, MainCalled]"
    using after_throw_facts by (simp_all add: quiet_def)
  note run = settle_calls_throwing_main[OF pre(1-5) page_with_facts(1,2,3)]
  obtain r t where rt: "Imports_scriptLoaded the_config (page_with Throws) ?s1 = (r, t)"
    by (cases "Imports_scriptLoaded the_config (page_with Throws) ?s1")
  with run have r: "r = None" by simp
  have "events (deliver the_config (page_with Throws) (ScriptLoad ''late'') late_import)
      = [AllScriptsLoaded, MainCalled, AllScriptsLoaded, MainCalled]"
    using run pre(6) unfolding d rt r by (simp add: uncaught_def)
  then show ?thesis
    by (simp add: starts_def after_throw_facts)
qed


section \<open>One call of \<^verbatim>\<open>allScriptsLoaded\<close> for the requested scripts\<close>

text \<open>The scripts in question are the ones requested when the events start: the events
  are the \<^verbatim>\<open>load\<close> events and timer ticks of these scripts, and the registrations and
  imports that the body of a loaded script performs are calls of their own, not part of
  an event. A script whose timer has fired can still load afterwards; it has timed out
  for good when its \<^verbatim>\<open>load\<close> event never comes.

  \<^verbatim>\<open>cycligent.Script.scriptLoaded\<close> first marks its script as loaded and stops its timer,
  then hands over to \<^verbatim>\<open>cycligent.Imports.scriptLoaded\<close>.\<close>

definition marked :: "config \<Rightarrow> string \<Rightarrow> script \<Rightarrow> state \<Rightarrow> state" where
  "marked cfg sid me s =
     (let s1 = s\<lparr>scripts := AList.update sid (me\<lparr>interval := False, loaded := True\<rparr>) (scripts s)\<rparr>
      in if debug_scripts cfg
         then tell (ConsoleInfo (''Import Complete (Script Loaded): '' @ scriptId me)) s1
         else s1)"

lemma Script_scriptLoaded_marked:
  "Script_scriptLoaded cfg h sid me s = Imports_scriptLoaded cfg h (marked cfg sid me s)"
  by (simp add: Script_scriptLoaded_def marked_def Let_def)

lemma marked_facts:
  "scriptsPending (marked cfg sid me s) = scriptsPending s"
  "events (marked cfg sid me s) = events s"
  "scriptsReady (marked cfg sid me s) = scriptsReady s"
  "scripts (marked cfg sid me s) = AList.update sid (me\<lparr>interval := False, loaded := True\<rparr>) (scripts s)"
  by (simp_all add: marked_def Let_def tell_def)


lemma uncaught_facts:
  "scriptsPending (uncaught r) = scriptsPending (snd r)"
  "scripts (uncaught r) = scripts (snd r)"
  "scriptsReady (uncaught r) = scriptsReady (snd r)"
  "settles (uncaught r) = settles (snd r)"
  "starts (uncaught r) = starts (snd r)"
  "unloaded (uncaught r) = unloaded (snd r)"
  "events (uncaught r) = events (snd r) @ (case fst r of None \<Rightarrow> [] | Some e \<Rightarrow> [Uncaught e])"
  by (cases r; cases "fst r"; simp add: uncaught_def emit_def settles_def starts_def unloaded_def)+

lemma deliver_grows: "\<exists>more. events (deliver cfg h ev s) = events s @ more"
proof (cases ev)
  case (ScriptLoad sid)
  show ?thesis
  proof (cases "map_of (scripts s) sid")
    case None
    with ScriptLoad show ?thesis by simp
  next
    case (Some me)
    from Imports_scriptLoaded_cases[of cfg h "marked cfg sid me s"]
    obtain more where "events (snd (Imports_scriptLoaded cfg h (marked cfg sid me s))) = events s @ more"
      by (auto simp: marked_facts)
    then show ?thesis
      using ScriptLoad Some by (simp add: Script_scriptLoaded_marked uncaught_facts)
  qed
next
  case (IntervalTick sid)
  then show ?thesis
    by (simp add: Script_timeout_def tell_def split: option.splits)
next
  case DomContentLoaded
  from finalizes_readyCheck[of "s\<lparr>domReady := True\<rparr>" cfg h]
  obtain more where "events (snd (readyCheck cfg h (s\<lparr>domReady := True\<rparr>))) = events s @ more"
    by (auto simp: finalizes_def)
  then show ?thesis
    using DomContentLoaded by (simp add: domLoaded_def uncaught_facts)
next
  case WindowLoad
  from finalizes_readyCheck[of "s\<lparr>pageReady := True\<rparr>" cfg h]
  obtain more where "events (snd (readyCheck cfg h (s\<lparr>pageReady := True\<rparr>))) = events s @ more"
    by (auto simp: finalizes_def)
  then show ?thesis
    using WindowLoad by (simp add: pageLoaded_def uncaught_facts)
qed

lemma deliver_all_grows: "\<exists>more. events (deliver_all cfg h evs s) = events s @ more"
proof (induction evs arbitrary: s)
  case Nil
  show ?case by simp
next
  case (Cons ev evs)
  from deliver_grows[of cfg h ev s] obtain m1 where m1: "events (deliver cfg h ev s) = events s @ m1"
    by blast
  from Cons.IH[of "deliver cfg h ev s"] obtain m2 where
    "events (deliver_all cfg h evs (deliver cfg h ev s)) = events (deliver cfg h ev s) @ m2"
    by blast
  with m1 show ?case by simp
qed
































section \<open>The assumed definitions\<close>

text \<open>A class or an interface counts as processed when its entry in \<^verbatim>\<open>cycligent.classes\<close> or
  \<^verbatim>\<open>cycligent.interfaces\<close> is \<^verbatim>\<open>true\<close>. The passes over the deferred classes and interfaces
  never take such an entry back.\<close>

definition stays :: "cy \<Rightarrow> cy \<Rightarrow> bool" where
  "stays c c' \<longleftrightarrow>
     (\<forall>n. classes c n = Some True \<longrightarrow> classes c' n = Some True)
     \<and> (\<forall>n. interfaces c n = Some True \<longrightarrow> interfaces c' n = Some True)"

lemma stays_refl: "stays c c"
  by (simp add: stays_def)

lemma stays_trans: "stays a b \<Longrightarrow> stays b c \<Longrightarrow> stays a c"
  by (simp add: stays_def)

lemma stays_andThen:
  "stays c (snd r) \<Longrightarrow> (\<And>s. stays c s \<Longrightarrow> stays c (snd (f s))) \<Longrightarrow> stays c (snd (andThen r f))"
  by (auto simp: andThen_def split: prod.splits option.splits)

lemma stays_withValue:
  "stays c s \<Longrightarrow> (\<And>v. stays c (snd (f v))) \<Longrightarrow> stays c (snd (withValue x s f))"
  by (auto simp: withValue_def split: sum.splits)

lemma stays_say: "stays c (say m c)"
  by (simp add: stays_def say_def)

lemma stays_definitionSet: "stays c (snd (definitionSet c n x))"
  by (auto simp: stays_def definitionSet_def split: option.splits sum.splits jsval.splits)

lemma stays_interfacesCheck: "stays c (snd (interfacesCheck c n vs))"
proof (induction vs arbitrary: c)
  case Nil
  show ?case by (simp add: stays_refl)
next
  case (Cons v vs)
  have "stays c (snd (interfacesCheck (say m c) n vs))" for m
    by (rule stays_trans[OF stays_say Cons.IH])
  then show ?case
    using Cons.IH by (simp add: Let_def stays_say stays_refl)
qed

lemma stays_extendsCheck: "stays c (extendsCheck c n v)"
  by (simp add: extendsCheck_def stays_say stays_refl)

lemma stays_classDebug: "stays c (snd (classDebug cfg c n a v))"
  using stays_trans[OF stays_extendsCheck stays_interfacesCheck]
  by (auto simp: classDebug_def Let_def stays_refl stays_extendsCheck stays_interfacesCheck
      intro!: stays_withValue split: option.splits)

lemma stays_nameCheck: "stays c (nameCheck c n)"
  by (simp add: nameCheck_def stays_say stays_refl)

lemma stays_classes_update: "stays c c3 \<Longrightarrow> stays c (c3\<lparr>classes := (classes c3)(n \<mapsto> True)\<rparr>)"
  by (simp add: stays_def)

lemma stays_classProcess: "stays c (snd (classProcess cfg c a))"
proof (cases "arg_name a")
  case None
  then show ?thesis by (simp add: classProcess_def stays_refl)
next
  case (Some n)
  then show ?thesis
    by (auto simp: classProcess_def Let_def stays_nameCheck
        intro!: stays_withValue stays_andThen stays_classes_update
        intro: stays_trans[OF stays_nameCheck stays_classDebug] stays_trans[OF _ stays_definitionSet])
qed

lemma stays_interfaceProcess: "stays c (snd (interfaceProcess c a))"
  by (auto simp: interfaceProcess_def stays_refl stays_definitionSet intro!: stays_withValue)

lemma stays_queue:
  "stays c c1 \<Longrightarrow> stays c (c1\<lparr>classesToProcess := q\<rparr>)"
  "stays c c1 \<Longrightarrow> stays c (c1\<lparr>interfacesToProcess := q'\<rparr>)"
  by (simp_all add: stays_def)

lemma stays_classFor: "stays c0 c \<Longrightarrow> stays c0 (snd (snd (classFor cfg rest index seen c)))"
proof (induction cfg rest index seen c rule: classFor.induct)
  case (1 cfg index seen c)
  then show ?case by simp
next
  case (2 cfg rest index seen c)
  then show ?case by simp
next
  case (3 cfg a rest index seen c)
  show ?case
  proof (cases "classMissing c a")
    case (Inl e)
    with 3(3) show ?thesis by simp
  next
    case (Inr missing)
    show ?thesis
    proof (cases "missing = []")
      case False
      with Inr 3(2)[OF Inr False 3(3)] show ?thesis by simp
    next
      case True
      obtain r c1 where cp: "classProcess cfg c a = (r, c1)" by (cases "classProcess cfg c a")
      have s1: "stays c0 c1"
        using stays_trans[OF 3(3) stays_classProcess[of c cfg a]] cp by simp
      show ?thesis
      proof (cases r)
        case None
        from 3(1)[OF Inr True cp[symmetric] None stays_queue(1)[OF s1]]
        show ?thesis using Inr True cp None by simp
      next
        case (Some e)
        then show ?thesis using Inr True cp s1 by simp
      qed
    qed
  qed
qed

lemma stays_classProcessDeferred: "stays c0 c \<Longrightarrow> stays c0 (snd (classProcessDeferred cfg c))"
proof (induction cfg c rule: classProcessDeferred.induct)
  case (1 cfg c)
  obtain r seen c1 where f: "classFor cfg (classesToProcess c) 0 False c = (r, seen, c1)"
    by (cases "classFor cfg (classesToProcess c) 0 False c")
  have s1: "stays c0 c1" using stays_classFor[OF 1(2), of cfg "classesToProcess c" 0 False] f by simp
  show ?case
  proof (cases r)
    case (Some e)
    then show ?thesis using f s1 by (subst classProcessDeferred.simps) simp
  next
    case None
    show ?thesis
    proof (cases seen)
      case False
      then show ?thesis using f None stays_queue(1)[OF s1]
        by (subst classProcessDeferred.simps) simp
    next
      case True
      have "stays c0 (snd (classProcessDeferred cfg (c1\<lparr>classesToProcess := trimNulls (classesToProcess c1)\<rparr>)))"
        using 1(1)[OF f[symmetric] None refl refl] True stays_queue(1)[OF s1] by simp
      then show ?thesis using f None True
        by (subst classProcessDeferred.simps) simp
    qed
  qed
qed

lemma stays_interfaceFor: "stays c0 c \<Longrightarrow> stays c0 (snd (snd (interfaceFor rest index seen c)))"
proof (induction rest index seen c rule: interfaceFor.induct)
  case (1 index seen c)
  then show ?case by simp
next
  case (2 rest index seen c)
  then show ?case by simp
next
  case (3 a rest index seen c)
  have "interfaceMissing c this_cycligent = Inl TypeError"
    by (simp add: interfaceMissing_def this_cycligent_def)
  with 3(3) show ?case by simp
qed

lemma stays_interfaceDo: "stays c0 c \<Longrightarrow> stays c0 (snd (snd (interfaceDo ip c)))"
proof (induction ip c rule: interfaceDo.induct)
  case (1 ip c)
  obtain r seen c1 where f: "interfaceFor (interfacesToProcess c) 0 False c = (r, seen, c1)"
    by (cases "interfaceFor (interfacesToProcess c) 0 False c")
  have s1: "stays c0 c1"
    using stays_interfaceFor[OF 1(2), of "interfacesToProcess c" 0 False] f by simp
  show ?case
  proof (cases r)
    case (Some e)
    then show ?thesis using f s1 by (subst interfaceDo.simps) simp
  next
    case None
    show ?thesis
    proof (cases seen)
      case False
      then show ?thesis using f None stays_queue(2)[OF s1]
        by (subst interfaceDo.simps) simp
    next
      case True
      have "stays c0 (snd (snd (interfaceDo True
               (c1\<lparr>interfacesToProcess := trimNulls (interfacesToProcess c1)\<rparr>))))"
        using 1(1)[OF f[symmetric] None refl refl] True stays_queue(2)[OF s1] by simp
      then show ?thesis using f None True
        by (subst interfaceDo.simps) simp
    qed
  qed
qed

lemma stays_interfaceProcessDeferred:
  "stays c0 c \<Longrightarrow> stays c0 (snd (interfaceProcessDeferred cfg c))"
proof -
  assume s: "stays c0 c"
  obtain r ip c1 where d: "interfaceDo False c = (r, ip, c1)" by (cases "interfaceDo False c")
  have s1: "stays c0 c1" using stays_interfaceDo[OF s, of False] d by simp
  show ?thesis
    using d s1 stays_classProcessDeferred[OF s1, of cfg]
    by (cases r) (simp_all add: interfaceProcessDeferred_def)
qed

text \<open>The loop of the assumed definitions writes to the namespace tree and to the list of
  priority definitions only.\<close>

definition untouched :: "cy \<Rightarrow> cy \<Rightarrow> bool" where
  "untouched c c' \<longleftrightarrow>
     classes c' = classes c \<and> interfaces c' = interfaces c
     \<and> classesToProcess c' = classesToProcess c \<and> interfacesToProcess c' = interfacesToProcess c
     \<and> definitionsToProcess c' = definitionsToProcess c"

lemma untouched_refl: "untouched c c"
  by (simp add: untouched_def)

lemma untouched_trans: "untouched a b \<Longrightarrow> untouched b c \<Longrightarrow> untouched a c"
  by (simp add: untouched_def)

lemma untouched_definitionSet: "untouched c (snd (definitionSet c n x))"
  by (auto simp: untouched_def definitionSet_def split: option.splits sum.splits jsval.splits)

lemma untouched_definitionStore: "untouched c (snd (definitionStore c a))"
  using untouched_definitionSet[of c "arg_name a"]
  by (auto simp: definitionStore_def withValue_def untouched_refl split: option.splits sum.splits)

lemma untouched_definitionProcess2: "untouched c (snd (definitionProcess2 c a))"
  using untouched_definitionStore[of c a] by (simp add: definitionProcess2_def untouched_def)

lemma assumeOne_eq:
  assumes "arg_name a = Some n" and "materialize (Obj Plain (window c)) (split_dot n) = (r, v)"
  shows "assumeOne c a
           = andThen (r, case v of Obj k ps \<Rightarrow> c\<lparr>window := ps\<rparr> | _ \<Rightarrow> c)
               (\<lambda>c1. definitionProcess2 c1 a)"
  using assms by (cases v) (simp_all add: assumeOne_def)

lemma untouched_assumeOne: "untouched c (snd (assumeOne c a))"
proof (cases "arg_name a")
  case None
  then show ?thesis by (simp add: assumeOne_def untouched_refl)
next
  case (Some n)
  obtain r v where m: "materialize (Obj Plain (window c)) (split_dot n) = (r, v)"
    by (cases "materialize (Obj Plain (window c)) (split_dot n)")
  define c1 where "c1 = (case v of Obj k ps \<Rightarrow> c\<lparr>window := ps\<rparr> | _ \<Rightarrow> c)"
  have u1: "untouched c c1" by (cases v) (simp_all add: c1_def untouched_def)
  have "snd (assumeOne c a) = c1 \<or> snd (assumeOne c a) = snd (definitionProcess2 c1 a)"
    unfolding assumeOne_eq[OF Some m] by (cases r) (simp_all add: andThen_def c1_def)
  then show ?thesis
    using u1 untouched_trans[OF u1 untouched_definitionProcess2[of c1 a]] by auto
qed

lemma untouched_assumeFor: "untouched c (snd (assumeFor q c))"
proof (induction q arbitrary: c)
  case Nil
  show ?case by (simp add: untouched_refl)
next
  case (Cons a q)
  obtain r c1 where o: "assumeOne c a = (r, c1)" by (cases "assumeOne c a")
  have u1: "untouched c c1" using untouched_assumeOne[of c a] o by simp
  show ?case
    using o u1 untouched_trans[OF u1 Cons.IH[of c1]]
    by (cases r) (simp_all add: andThen_def)
qed

text \<open>A path can be walked by the loop when every value that is there already, above the
  last segment, is an object.\<close>

fun passable :: "jsval \<Rightarrow> string list \<Rightarrow> bool" where
  "passable v [] = True"
| "passable v (k # ks) = (is_obj v \<and> (truthy (read_prop v k) \<longrightarrow> passable (read_prop v k) ks))"

lemma nothing_below_undefined: "get_path Undefined ks = Inr y \<Longrightarrow> \<not> truthy y"
  by (cases ks) (auto simp: get_prop_def)

lemma nothing_in_empty_object: "ks \<noteq> [] \<Longrightarrow> get_path (Obj k []) ks = Inr y \<Longrightarrow> \<not> truthy y"
  by (cases ks) (auto simp: get_prop_def nothing_below_undefined)

lemma is_obj_truthy: "is_obj v \<Longrightarrow> truthy v"
  by (cases v) simp_all

lemma materialize_passable:
  "passable v ks \<Longrightarrow> ks \<noteq> [] \<Longrightarrow>
   fst (materialize v ks) = None
   \<and> is_obj (snd (materialize v ks))
   \<and> objects_along (snd (materialize v ks)) (butlast ks)
   \<and> (\<exists>x. get_path (snd (materialize v ks)) ks = Inr x \<and> truthy x
          \<and> ((\<forall>y. get_path v ks = Inr y \<longrightarrow> \<not> truthy y) \<longrightarrow> x = Obj Plain []))"
proof (induction ks arbitrary: v)
  case Nil
  then show ?case by simp
next
  case (Cons k ks)
  from Cons.prems have obj: "is_obj v" by simp
  define v1 where "v1 = (if \<not> truthy (read_prop v k) then put v k (Obj Plain []) else v)"
  define child where "child = read_prop v1 k"
  have obj1: "is_obj v1" using obj by (simp add: v1_def is_obj_put)
  have child: "child = (if truthy (read_prop v k) then read_prop v k else Obj Plain [])"
    using obj by (simp add: child_def v1_def read_put)
  have tc: "truthy child" by (simp add: child)
  have pc: "passable child ks"
    using Cons.prems(1) by (cases ks) (simp_all add: child)
  have nn: "\<not> nullish v" using obj by (rule is_obj_not_nullish)
  obtain r child' where m: "materialize child ks = (r, child')" by (cases "materialize child ks")
  have unfold: "materialize v (k # ks) = (r, put v1 k child')"
    using nn m by (simp add: Let_def v1_def[symmetric] child_def[symmetric])
  have nn': "\<not> nullish (put v1 k child')"
    using obj1 by (simp add: is_obj_not_nullish is_obj_put)
  have rd: "read_prop (put v1 k child') k = child'" using obj1 by (rule read_put)
  show ?case
  proof (cases "ks = []")
    case True
    have c': "r = None" "child' = child" using m True by simp_all
    have old: "get_path v [k] = Inr (read_prop v k)" using nn by (simp add: get_prop_def)
    have unfold': "materialize v [k] = (None, put v1 k child)"
      using unfold c' True by simp
    have new: "get_path (put v1 k child) [k] = Inr child"
      using nn' rd c' by (simp add: get_prop_def)
    have fresh: "(\<forall>y. get_path v [k] = Inr y \<longrightarrow> \<not> truthy y) \<longrightarrow> child = Obj Plain []"
      using old child by simp
    show ?thesis
      unfolding True unfold' using obj1 tc new fresh by (simp only: fst_conv snd_conv is_obj_put butlast.simps objects_along.simps list.simps if_True simp_thms) blast
  next
    case False
    from Cons.IH[OF pc False] m obtain x where
      ih: "r = None" "is_obj child'" "objects_along child' (butlast ks)"
        "get_path child' ks = Inr x" "truthy x"
        "(\<forall>y. get_path child ks = Inr y \<longrightarrow> \<not> truthy y) \<longrightarrow> x = Obj Plain []"
      by auto
    have old: "get_path v (k # ks) = get_path (read_prop v k) ks"
      using nn by (simp add: get_prop_def)
    have fresh: "(\<forall>y. get_path v (k # ks) = Inr y \<longrightarrow> \<not> truthy y) \<longrightarrow> x = Obj Plain []"
    proof
      assume a: "\<forall>y. get_path v (k # ks) = Inr y \<longrightarrow> \<not> truthy y"
      have "\<forall>y. get_path child ks = Inr y \<longrightarrow> \<not> truthy y"
      proof (cases "truthy (read_prop v k)")
        case True
        then show ?thesis using a old by (simp add: child)
      next
        case no: False
        then show ?thesis using nothing_in_empty_object[OF False] by (auto simp: child)
      qed
      with ih(6) show "x = Obj Plain []" by simp
    qed
    have new: "get_path (put v1 k child') (k # ks) = Inr x"
      using nn' rd ih(4) by (simp add: get_prop_def)
    have along: "objects_along (put v1 k child') (butlast (k # ks))"
      using False obj1 rd ih(3) by (simp add: is_obj_put)
    show ?thesis
      unfolding unfold using ih(1,5) obj1 new along fresh by (simp add: is_obj_put)
  qed
qed

lemma materialize_kind: "\<exists>ps'. snd (materialize (Obj kd ps) ks) = Obj kd ps'"
  by (cases ks) (auto simp: Let_def split: prod.splits)

lemma set_path_objects_along:
  "objects_along v (butlast ks) \<Longrightarrow> set_path v ks x = Inr v' \<Longrightarrow>
   objects_along v' (butlast ks)"
proof (induction v ks x arbitrary: v' rule: set_path.induct)
  case (1 v x)
  then show ?case by simp
next
  case (2 v k x)
  then show ?case by (auto simp: set_prop_def is_obj_put split: if_splits)
next
  case (3 v k k' ks x)
  from 3(2) have obj: "is_obj v" and rest: "objects_along (read_prop v k) (butlast (k' # ks))"
    by simp_all
  have g: "get_prop v k = Inr (read_prop v k)"
    using obj by (simp add: get_prop_def is_obj_not_nullish)
  from 3(3) g obtain c' where
    c': "set_path (read_prop v k) (k' # ks) x = Inr c'" "v' = put v k c'"
    by (auto split: sum.splits)
  from 3(1)[OF g rest c'(1)] have "objects_along c' (butlast (k' # ks))" .
  then show ?case using obj c'(2) by (simp add: is_obj_put read_put)
qed

lemma set_path_kind: "set_path (Obj kd ps) ks x = Inr v' \<Longrightarrow> \<exists>ps'. v' = Obj kd ps'"
  by (cases "(Obj kd ps, ks, x)" rule: set_path.cases)
     (auto simp: set_prop_def get_prop_def split: sum.splits)

lemma split_dot_nonempty: "split_dot n \<noteq> []"
  by (cases n) (auto split: list.splits)

lemma definitionSet_along:
  assumes "objects_along (Obj Plain (window c)) (butlast (split_dot n))"
  shows "fst (definitionSet c (Some n) x) = None
       \<and> definitionGet (snd (definitionSet c (Some n) x)) (Some n) = Inr x
       \<and> objects_along (Obj Plain (window (snd (definitionSet c (Some n) x)))) (butlast (split_dot n))"
proof -
  from set_then_get[OF assms split_dot_nonempty, of x] obtain v' where
    v': "set_path (Obj Plain (window c)) (split_dot n) x = Inr v'"
        "get_path v' (split_dot n) = Inr x"
    by auto
  from set_path_kind[OF v'(1)] obtain ps where ps: "v' = Obj Plain ps" by auto
  have along: "objects_along v' (butlast (split_dot n))"
    using set_path_objects_along[OF assms v'(1)] .
  have eq: "definitionSet c (Some n) x = (None, c\<lparr>window := ps\<rparr>)"
    using v'(1) ps by (simp add: definitionSet_def)
  show ?thesis
    unfolding eq using v'(2) along ps by (simp add: definitionGet_def)
qed

lemma definitionProcess2_resolved:
  assumes "arg_name a = Some n"
    and "objects_along (Obj Plain (window c)) (butlast (split_dot n))"
    and "definitionGet c (Some n) = Inr x" and "truthy x"
  shows "(\<exists>y. definitionGet (snd (definitionProcess2 c a)) (Some n) = Inr y \<and> truthy y)
       \<and> objects_along (Obj Plain (window (snd (definitionProcess2 c a)))) (butlast (split_dot n))
       \<and> (arg_definition a \<noteq> Fn Throws \<longrightarrow> fst (definitionProcess2 c a) = None)
       \<and> (\<not> truthy (arg_definition a) \<longrightarrow> definitionProcess2 c a = (None, c))"
proof (cases "truthy (arg_definition a) \<and> \<not> nonzero (arg_priority a)")
  case False
  then have "definitionProcess2 c a = (None, c)
      \<or> definitionProcess2 c a = (None, c\<lparr>priorityDefinitions := priorityDefinitions c @ [a]\<rparr>)"
    by (auto simp: definitionProcess2_def)
  then show ?thesis
    using assms(2,3,4) by (auto simp: definitionGet_def definitionProcess2_def)
next
  case True
  then have eq: "definitionProcess2 c a = definitionStore c a"
    by (simp add: definitionProcess2_def)
  note set = definitionSet_along[OF assms(2)]
  show ?thesis
  proof (cases "call_function (arg_definition a)")
    case None
    then have st: "definitionStore c a = definitionSet c (Some n) (arg_definition a)"
      by (simp add: definitionStore_def assms(1))
    from None have "arg_definition a \<noteq> Fn Throws" by auto
    then show ?thesis
      unfolding eq st using set[of "arg_definition a"] True by auto
  next
    case (Some result)
    show ?thesis
    proof (cases result)
      case (Inl e)
      then have st: "definitionStore c a = (Some e, c)"
        using Some by (simp add: definitionStore_def withValue_def)
      have "arg_definition a = Fn Throws"
        using Some Inl by (cases "arg_definition a" rule: call_function.cases) auto
      then show ?thesis
        unfolding eq st using assms(2,3,4) True by auto
    next
      case (Inr returnValue)
      then have st: "definitionStore c a
          = (if truthy returnValue then definitionSet c (Some n) returnValue else (None, c))"
        using Some by (simp add: definitionStore_def withValue_def assms(1))
      show ?thesis
        unfolding eq st using set[of returnValue] assms(2,3,4) True by auto
    qed
  qed
qed

text \<open>What a step of the loop does to the other paths. \<open>above m p\<close>: the path \<open>m\<close> is a
  proper prefix of the path \<open>p\<close>.\<close>

fun above :: "string list \<Rightarrow> string list \<Rightarrow> bool" where
  "above [] p = (p \<noteq> [])"
| "above (k # ks) [] = False"
| "above (k # ks) (k' # p) = (k = k' \<and> above ks p)"

definition resolved :: "jsval \<Rightarrow> string list \<Rightarrow> bool" where
  "resolved v p \<longleftrightarrow> (\<exists>x. get_path v p = Inr x \<and> truthy x)"

lemma resolved_Nil: "resolved v [] = truthy v"
  by (simp add: resolved_def)

lemma resolved_Cons: "resolved v (k # p) = (\<not> nullish v \<and> resolved (read_prop v k) p)"
  by (simp add: resolved_def get_prop_def)

lemma resolved_truthy: "resolved v p \<Longrightarrow> truthy v"
proof (cases p)
  case Nil
  then show "resolved v p \<Longrightarrow> truthy v" by (simp add: resolved_Nil)
next
  case (Cons k p')
  assume r: "resolved v p"
  show "truthy v"
  proof (cases "is_obj v")
    case True
    then show ?thesis by (rule is_obj_truthy)
  next
    case False
    then have "read_prop v k = Undefined" by (cases v) simp_all
    with r Cons have "resolved Undefined p'" by (simp add: resolved_Cons)
    then show ?thesis using nothing_below_undefined[of p'] by (auto simp: resolved_def)
  qed
qed

lemma resolved_is_obj: "resolved v (k # p) \<Longrightarrow> is_obj v"
proof -
  assume r: "resolved v (k # p)"
  then have "truthy (read_prop v k)"
    using resolved_truthy[of "read_prop v k" p] by (simp add: resolved_Cons)
  then show "is_obj v" by (cases v) simp_all
qed

lemma read_put_other: "k' \<noteq> k \<Longrightarrow> read_prop (put v k x) k' = read_prop v k'"
  by (cases v) (simp_all add: update_conv')

lemma passable_empty_object: "passable (Obj kd []) p"
  by (cases p) simp_all

lemma materialize_shape:
  "snd (materialize v (k # ks))
     = (if is_obj v
        then put v k (snd (materialize (if truthy (read_prop v k) then read_prop v k else Obj Plain []) ks))
        else v)"
proof (cases "is_obj v")
  case True
  then have nn: "\<not> nullish v" by (rule is_obj_not_nullish)
  show ?thesis
    using True nn by (cases v) (auto simp: Let_def update_conv' split: prod.splits)
next
  case False
  then show ?thesis by (cases v) (auto simp: Let_def split: prod.splits)
qed

lemma materialize_keeps_passable:
  "passable v p \<Longrightarrow> passable (snd (materialize v ks)) p"
proof (induction ks arbitrary: v p)
  case Nil
  then show ?case by simp
next
  case (Cons k ks)
  show ?case
  proof (cases p)
    case Nil
    then show ?thesis by simp
  next
    case p: (Cons k' p')
    from Cons.prems p have obj: "is_obj v" by simp
    let ?child = "if truthy (read_prop v k) then read_prop v k else Obj Plain []"
    have pc: "k' = k \<Longrightarrow> passable ?child p'"
      using Cons.prems p by (simp add: passable_empty_object)
    show ?thesis
    proof (cases "k' = k")
      case True
      from Cons.IH[OF pc[OF True]] show ?thesis
        unfolding materialize_shape p using obj True by (simp add: is_obj_put read_put)
    next
      case False
      then show ?thesis
        unfolding materialize_shape p using obj Cons.prems p
        by (simp add: is_obj_put read_put_other)
    qed
  qed
qed

lemma materialize_keeps_resolved:
  "resolved v p \<Longrightarrow> resolved (snd (materialize v ks)) p"
proof (induction ks arbitrary: v p)
  case Nil
  then show ?case by simp
next
  case (Cons k ks)
  show ?case
  proof (cases "is_obj v")
    case False
    then show ?thesis unfolding materialize_shape using Cons.prems by simp
  next
    case obj: True
    let ?child = "if truthy (read_prop v k) then read_prop v k else Obj Plain []"
    show ?thesis
    proof (cases p)
      case Nil
      then show ?thesis
        unfolding materialize_shape using obj by (simp add: resolved_Nil is_obj_put is_obj_truthy)
    next
      case p: (Cons k' p')
      have nn: "\<not> nullish (put v k x)" for x
        using obj by (simp add: is_obj_not_nullish is_obj_put)
      show ?thesis
      proof (cases "k' = k")
        case True
        from Cons.prems p True have r: "resolved (read_prop v k) p'" by (simp add: resolved_Cons)
        then have "truthy (read_prop v k)" by (rule resolved_truthy)
        with r have "resolved ?child p'" by simp
        from Cons.IH[OF this] show ?thesis
          unfolding materialize_shape p using obj True nn by (simp add: resolved_Cons read_put)
      next
        case False
        then show ?thesis
          unfolding materialize_shape p using obj Cons.prems p nn
          by (simp add: resolved_Cons read_put_other)
      qed
    qed
  qed
qed

lemma set_path_shape:
  "set_path v (k # ks) x = Inr v' \<Longrightarrow>
   \<not> nullish v
   \<and> (\<exists>c'. (if ks = [] then c' = x else set_path (read_prop v k) ks x = Inr c') \<and> v' = put v k c')"
  by (cases ks) (auto simp: set_prop_def get_prop_def split: if_splits sum.splits)

lemma truthy_put: "truthy (put v k x) = truthy v"
  by (cases v) simp_all

lemma set_path_truthy: "set_path v m x = Inr v' \<Longrightarrow> truthy v' = truthy v"
proof (cases m)
  case Nil
  then show "set_path v m x = Inr v' \<Longrightarrow> truthy v' = truthy v" by simp
next
  case (Cons k ks)
  assume "set_path v m x = Inr v'"
  with Cons set_path_shape[of v k ks x v'] show "truthy v' = truthy v"
    by (auto simp: truthy_put)
qed

lemma set_path_keeps_passable:
  "set_path v m x = Inr v' \<Longrightarrow> \<not> above m p \<Longrightarrow> passable v p \<Longrightarrow> passable v' p"
proof (induction m arbitrary: v p v')
  case Nil
  then show ?case by simp
next
  case (Cons k ks)
  from set_path_shape[OF Cons.prems(1)] obtain c' where
    c': "if ks = [] then c' = x else set_path (read_prop v k) ks x = Inr c'" "v' = put v k c'"
    by auto
  show ?case
  proof (cases p)
    case Nil
    then show ?thesis by simp
  next
    case p: (Cons k' p')
    from Cons.prems(3) p have obj: "is_obj v" by simp
    show ?thesis
    proof (cases "k' = k")
      case False
      then show ?thesis using Cons.prems(3) p obj c'(2) by (simp add: is_obj_put read_put_other)
    next
      case True
      have "truthy c' \<longrightarrow> passable c' p'"
      proof (cases "ks = []")
        case emp: True
        with Cons.prems(2) p True have "p' = []" by simp
        then show ?thesis by simp
      next
        case False
        with c'(1) have sp: "set_path (read_prop v k) ks x = Inr c'" by simp
        have na: "\<not> above ks p'" using Cons.prems(2) p True by simp
        show ?thesis
        proof
          assume "truthy c'"
          then have "truthy (read_prop v k)" using set_path_truthy[OF sp] by simp
          then have "passable (read_prop v k) p'" using Cons.prems(3) p True by simp
          from Cons.IH[OF sp na this] show "passable c' p'" .
        qed
      qed
      then show ?thesis using obj c'(2) True p by (simp add: is_obj_put read_put)
    qed
  qed
qed

lemma set_path_keeps_resolved:
  "set_path v m x = Inr v' \<Longrightarrow> truthy x \<Longrightarrow> \<not> above m p \<Longrightarrow> resolved v p \<Longrightarrow> resolved v' p"
proof (induction m arbitrary: v p v')
  case Nil
  then show ?case by simp
next
  case (Cons k ks)
  from set_path_shape[OF Cons.prems(1)] obtain c' where
    c': "if ks = [] then c' = x else set_path (read_prop v k) ks x = Inr c'" "v' = put v k c'"
    by auto
  show ?case
  proof (cases p)
    case Nil
    then show ?thesis
      using Cons.prems(4) set_path_truthy[OF Cons.prems(1)] by (simp add: resolved_Nil)
  next
    case p: (Cons k' p')
    from Cons.prems(4) p have obj: "is_obj v" using resolved_is_obj by simp
    have nn: "\<not> nullish v'" using obj c'(2) by (simp add: is_obj_not_nullish is_obj_put)
    show ?thesis
    proof (cases "k' = k")
      case False
      then show ?thesis using Cons.prems(4) p nn c'(2) by (simp add: resolved_Cons read_put_other)
    next
      case True
      have "resolved c' p'"
      proof (cases "ks = []")
        case emp: True
        with Cons.prems(3) p True have "p' = []" by simp
        then show ?thesis using c'(1) emp Cons.prems(2) by (simp add: resolved_Nil)
      next
        case False
        with c'(1) have sp: "set_path (read_prop v k) ks x = Inr c'" by simp
        have na: "\<not> above ks p'" using Cons.prems(3) p True by simp
        have "resolved (read_prop v k) p'" using Cons.prems(4) p True by (simp add: resolved_Cons)
        from Cons.IH[OF sp Cons.prems(2) na this] show ?thesis .
      qed
      then show ?thesis using obj nn c'(2) True p by (simp add: resolved_Cons read_put)
    qed
  qed
qed

text \<open>A pending definition spares a path when it stores nothing above it: it has no
  payload, or its name is not a proper prefix of the path.\<close>

definition spares :: "args \<Rightarrow> string list \<Rightarrow> bool" where
  "spares b p \<longleftrightarrow>
     (case arg_name b of
        None \<Rightarrow> True
      | Some m \<Rightarrow> truthy (arg_definition b) \<longrightarrow> \<not> above (split_dot m) p)"

lemma definitionSet_window:
  "window (snd (definitionSet c (Some m) x)) = window c
   \<or> (\<exists>ps. set_path (Obj Plain (window c)) (split_dot m) x = Inr (Obj Plain ps)
           \<and> window (snd (definitionSet c (Some m) x)) = ps)"
proof (cases "set_path (Obj Plain (window c)) (split_dot m) x")
  case (Inl e)
  then show ?thesis by (simp add: definitionSet_def)
next
  case (Inr v')
  from set_path_kind[OF Inr] obtain ps where "v' = Obj Plain ps" by auto
  with Inr show ?thesis by (simp add: definitionSet_def)
qed

lemma definitionProcess2_window:
  assumes "arg_name b = Some m"
  shows "window (snd (definitionProcess2 c b)) = window c
       \<or> (truthy (arg_definition b)
          \<and> (\<exists>x. truthy x \<and> window (snd (definitionProcess2 c b))
                               = window (snd (definitionSet c (Some m) x))))"
proof (cases "truthy (arg_definition b) \<and> \<not> nonzero (arg_priority b)")
  case False
  then show ?thesis by (auto simp: definitionProcess2_def)
next
  case True
  then have eq: "definitionProcess2 c b = definitionStore c b"
    by (simp add: definitionProcess2_def)
  show ?thesis
  proof (cases "call_function (arg_definition b)")
    case None
    then show ?thesis unfolding eq using True by (auto simp: definitionStore_def assms)
  next
    case (Some result)
    then show ?thesis
      unfolding eq using True
      by (cases result) (auto simp: definitionStore_def withValue_def assms)
  qed
qed

lemma assumeOne_window:
  assumes "arg_name b = Some m"
  shows "\<exists>c1. Obj Plain (window c1) = snd (materialize (Obj Plain (window c)) (split_dot m))
            \<and> (window (snd (assumeOne c b)) = window c1
               \<or> window (snd (assumeOne c b)) = window (snd (definitionProcess2 c1 b)))"
proof -
  obtain r v where mt: "materialize (Obj Plain (window c)) (split_dot m) = (r, v)"
    by (cases "materialize (Obj Plain (window c)) (split_dot m)")
  from materialize_kind[of Plain "window c" "split_dot m"] mt obtain ps where ps: "v = Obj Plain ps"
    by auto
  have "snd (assumeOne c b) = c\<lparr>window := ps\<rparr>
      \<or> snd (assumeOne c b) = snd (definitionProcess2 (c\<lparr>window := ps\<rparr>) b)"
    unfolding assumeOne_eq[OF assms mt] by (cases r) (simp_all add: andThen_def ps)
  then show ?thesis using mt ps by (intro exI[of _ "c\<lparr>window := ps\<rparr>"]) auto
qed

lemma assumeOne_keeps_passable:
  assumes "spares b p" and "passable (Obj Plain (window c)) p"
  shows "passable (Obj Plain (window (snd (assumeOne c b)))) p"
proof (cases "arg_name b")
  case None
  then show ?thesis using assms(2) by (simp add: assumeOne_def)
next
  case (Some m)
  from assumeOne_window[OF Some, of c] obtain c1 where
    c1: "Obj Plain (window c1) = snd (materialize (Obj Plain (window c)) (split_dot m))"
        "window (snd (assumeOne c b)) = window c1
         \<or> window (snd (assumeOne c b)) = window (snd (definitionProcess2 c1 b))"
    by auto
  have p1: "passable (Obj Plain (window c1)) p"
    unfolding c1(1) using assms(2) by (rule materialize_keeps_passable)
  have p2: "passable (Obj Plain (window (snd (definitionProcess2 c1 b)))) p"
  proof -
    from definitionProcess2_window[OF Some, of c1]
    consider "window (snd (definitionProcess2 c1 b)) = window c1"
      | x where "truthy (arg_definition b)" "truthy x"
          "window (snd (definitionProcess2 c1 b)) = window (snd (definitionSet c1 (Some m) x))"
      by auto
    then show ?thesis
    proof cases
      case 1
      then show ?thesis using p1 by simp
    next
      case 2
      have na: "\<not> above (split_dot m) p" using assms(1) Some 2(1) by (simp add: spares_def)
      from definitionSet_window[of c1 m x] show ?thesis
        unfolding 2(3) using p1 set_path_keeps_passable[OF _ na p1] by auto
    qed
  qed
  from c1(2) p1 p2 show ?thesis by auto
qed

lemma assumeOne_keeps_resolved:
  assumes "spares b p" and "resolved (Obj Plain (window c)) p"
  shows "resolved (Obj Plain (window (snd (assumeOne c b)))) p"
proof (cases "arg_name b")
  case None
  then show ?thesis using assms(2) by (simp add: assumeOne_def)
next
  case (Some m)
  from assumeOne_window[OF Some, of c] obtain c1 where
    c1: "Obj Plain (window c1) = snd (materialize (Obj Plain (window c)) (split_dot m))"
        "window (snd (assumeOne c b)) = window c1
         \<or> window (snd (assumeOne c b)) = window (snd (definitionProcess2 c1 b))"
    by auto
  have p1: "resolved (Obj Plain (window c1)) p"
    unfolding c1(1) using assms(2) by (rule materialize_keeps_resolved)
  have p2: "resolved (Obj Plain (window (snd (definitionProcess2 c1 b)))) p"
  proof -
    from definitionProcess2_window[OF Some, of c1]
    consider "window (snd (definitionProcess2 c1 b)) = window c1"
      | x where "truthy (arg_definition b)" "truthy x"
          "window (snd (definitionProcess2 c1 b)) = window (snd (definitionSet c1 (Some m) x))"
      by auto
    then show ?thesis
    proof cases
      case 1
      then show ?thesis using p1 by simp
    next
      case 2
      have na: "\<not> above (split_dot m) p" using assms(1) Some 2(1) by (simp add: spares_def)
      from definitionSet_window[of c1 m x] show ?thesis
        unfolding 2(3) using p1 set_path_keeps_resolved[OF _ 2(2) na p1] by auto
    qed
  qed
  from c1(2) p1 p2 show ?thesis by auto
qed

lemma assumeFor_keeps_resolved:
  "\<forall>b \<in> set q. spares b p \<Longrightarrow> resolved (Obj Plain (window c)) p \<Longrightarrow>
   resolved (Obj Plain (window (snd (assumeFor q c)))) p"
proof (induction q arbitrary: c)
  case Nil
  then show ?case by simp
next
  case (Cons b q)
  obtain r c1 where o: "assumeOne c b = (r, c1)" by (cases "assumeOne c b")
  have r1: "resolved (Obj Plain (window c1)) p"
    using assumeOne_keeps_resolved[of b p c] Cons.prems o by simp
  show ?case
    using o r1 Cons.IH[OF _ r1] Cons.prems(1) by (cases r) (simp_all add: andThen_def)
qed

lemma assumed_definition_step:
  assumes "arg_name a = Some n" and "passable (Obj Plain (window c)) (split_dot n)"
  shows "(\<exists>v. definitionGet (snd (assumeOne c a)) (Some n) = Inr v \<and> truthy v)
       \<and> objects_along (Obj Plain (window (snd (assumeOne c a)))) (butlast (split_dot n))
       \<and> (arg_definition a \<noteq> Fn Throws \<longrightarrow> fst (assumeOne c a) = None)
       \<and> (\<not> truthy (arg_definition a) \<and> (\<forall>v. definitionGet c (Some n) = Inr v \<longrightarrow> \<not> truthy v)
            \<longrightarrow> definitionGet (snd (assumeOne c a)) (Some n) = Inr (Obj Plain []))"
proof -
  obtain r v where m: "materialize (Obj Plain (window c)) (split_dot n) = (r, v)"
    by (cases "materialize (Obj Plain (window c)) (split_dot n)")
  from materialize_kind[of Plain "window c" "split_dot n"] m obtain ps where ps: "v = Obj Plain ps"
    by auto
  from materialize_passable[OF assms(2) split_dot_nonempty] m ps obtain x where
    mp: "r = None" "objects_along (Obj Plain ps) (butlast (split_dot n))"
      "get_path (Obj Plain ps) (split_dot n) = Inr x" "truthy x"
      "(\<forall>y. get_path (Obj Plain (window c)) (split_dot n) = Inr y \<longrightarrow> \<not> truthy y)
         \<longrightarrow> x = Obj Plain []"
    by auto
  let ?c1 = "c\<lparr>window := ps\<rparr>"
  have one: "assumeOne c a = definitionProcess2 ?c1 a"
    unfolding assumeOne_eq[OF assms(1) m] by (simp add: mp(1) ps andThen_def)
  have along1: "objects_along (Obj Plain (window ?c1)) (butlast (split_dot n))"
    using mp(2) by simp
  have get1: "definitionGet ?c1 (Some n) = Inr x"
    using mp(3) by (simp add: definitionGet_def)
  note p2 = definitionProcess2_resolved[OF assms(1) along1 get1 mp(4)]
  have fresh: "\<not> truthy (arg_definition a) \<and> (\<forall>v. definitionGet c (Some n) = Inr v \<longrightarrow> \<not> truthy v)
            \<longrightarrow> definitionGet (snd (assumeOne c a)) (Some n) = Inr (Obj Plain [])"
  proof
    assume a: "\<not> truthy (arg_definition a) \<and> (\<forall>v. definitionGet c (Some n) = Inr v \<longrightarrow> \<not> truthy v)"
    then have "x = Obj Plain []" using mp(5) by (simp add: definitionGet_def)
    moreover have "assumeOne c a = (None, ?c1)" using a p2 one by simp
    ultimately show "definitionGet (snd (assumeOne c a)) (Some n) = Inr (Obj Plain [])"
      using get1 by simp
  qed
  show ?thesis
    unfolding one
    using p2 fresh[unfolded one] by blast
qed

lemma assumeFor_resolves:
  "fst (assumeFor q c) = None \<Longrightarrow> a \<in> set q \<Longrightarrow> arg_name a = Some n \<Longrightarrow>
   \<forall>b \<in> set q. spares b (split_dot n) \<Longrightarrow> passable (Obj Plain (window c)) (split_dot n) \<Longrightarrow>
   resolved (Obj Plain (window (snd (assumeFor q c)))) (split_dot n)"
proof (induction q arbitrary: c)
  case Nil
  then show ?case by simp
next
  case (Cons b q)
  obtain r c1 where o: "assumeOne c b = (r, c1)" by (cases "assumeOne c b")
  from Cons.prems(1) o have r: "r = None" by (cases r) (simp_all add: andThen_def)
  have rest: "assumeFor (b # q) c = assumeFor q c1" using o r by (simp add: andThen_def)
  have sp: "\<forall>b \<in> set q. spares b (split_dot n)" using Cons.prems(4) by simp
  show ?case
  proof (cases "b = a")
    case True
    have "resolved (Obj Plain (window c1)) (split_dot n)"
      using assumed_definition_step[OF Cons.prems(3,5)] o True
      by (simp add: resolved_def definitionGet_def)
    from assumeFor_keeps_resolved[OF sp this] show ?thesis unfolding rest .
  next
    case False
    then have mem: "a \<in> set q" using Cons.prems(2) by simp
    have p1: "passable (Obj Plain (window c1)) (split_dot n)"
      using assumeOne_keeps_passable[of b "split_dot n" c] Cons.prems(4,5) o by simp
    have f1: "fst (assumeFor q c1) = None" using Cons.prems(1) rest by simp
    from Cons.IH[OF f1 mem Cons.prems(3) sp p1] show ?thesis unfolding rest .
  qed
qed

text \<open>Two registries with pending definitions: in both, \<^verbatim>\<open>app.view.list\<close> is defined without
  a payload while \<^verbatim>\<open>app\<close> is missing; then \<^verbatim>\<open>app.model\<close>, or \<^verbatim>\<open>app.view\<close>, is defined with
  an object as its payload.\<close>

definition define_args :: "string \<Rightarrow> jsval \<Rightarrow> args" where
  "define_args n d =
     \<lparr>arg_name = Some n, arg_definition = d, arg_extends = None,
      arg_implements = None, arg_priority = None\<rparr>"

definition view_list :: args where
  "view_list = define_args ''app.view.list'' Undefined"

definition model :: args where
  "model = define_args ''app.model'' (Obj Plain [(''rows'', Num 3)])"

definition view :: args where
  "view = define_args ''app.view'' (Obj Plain [(''title'', Str ''Orders'')])"

definition list_and_model :: cy where
  "list_and_model = snd (cycligent_define (snd (cycligent_define boot_registry view_list)) model)"

definition list_and_view :: cy where
  "list_and_view = snd (cycligent_define (snd (cycligent_define boot_registry view_list)) view)"

lemma app_paths:
  "split_dot ''app.view.list'' = [''app'', ''view'', ''list'']"
  "split_dot ''app.model'' = [''app'', ''model'']"
  "split_dot ''app.view'' = [''app'', ''view'']"
  by simp_all

lemma list_and_model_eq:
  "list_and_model = boot_registry\<lparr>definitionsToProcess := [view_list, model]\<rparr>"
  unfolding list_and_model_def cycligent_define_def definitionMissing_def nameMissing_def
  by (simp add: view_list_def model_def define_args_def app_paths withValue_def get_prop_def
      boot_registry_def del: split_dot.simps)

lemma list_and_view_eq:
  "list_and_view = boot_registry\<lparr>definitionsToProcess := [view_list, view]\<rparr>"
  unfolding list_and_view_def cycligent_define_def definitionMissing_def nameMissing_def
  by (simp add: view_list_def view_def define_args_def app_paths withValue_def get_prop_def
      boot_registry_def del: split_dot.simps)

lemma list_and_model_assumed:
  "assumeFor [view_list, model] list_and_model
     = (None, list_and_model
         \<lparr>window := [(''cycligent'',
             Obj Plain [(''Script'', Obj ClassCtor [(''cyName'', Str ''cycligent.Script'')]),
                        (''Imports'', Obj ClassCtor [(''cyName'', Str ''cycligent.Imports'')])]),
            (''app'', Obj Plain [(''view'', Obj Plain [(''list'', Obj Plain [])]),
                                 (''model'', Obj Plain [(''rows'', Num 3)])])]\<rparr>)"
  unfolding list_and_model_eq
  by (simp add: assumeOne_def andThen_def view_list_def model_def define_args_def app_paths
      definitionProcess2_def definitionStore_def definitionSet_def withValue_def
      set_prop_def get_prop_def boot_registry_def Let_def del: split_dot.simps)

lemma list_and_view_assumed:
  "assumeFor [view_list, view] list_and_view
     = (None, list_and_view
         \<lparr>window := [(''cycligent'',
             Obj Plain [(''Script'', Obj ClassCtor [(''cyName'', Str ''cycligent.Script'')]),
                        (''Imports'', Obj ClassCtor [(''cyName'', Str ''cycligent.Imports'')])]),
            (''app'', Obj Plain [(''view'', Obj Plain [(''title'', Str ''Orders'')])])]\<rparr>)"
  unfolding list_and_view_eq
  by (simp add: assumeOne_def andThen_def view_list_def view_def define_args_def app_paths
      definitionProcess2_def definitionStore_def definitionSet_def withValue_def
      set_prop_def get_prop_def boot_registry_def Let_def del: split_dot.simps)

text \<open>What the loop of \<^verbatim>\<open>_createAssumedDefinitions\<close> does achieve. Take a pending definition
  whose path runs through objects, and let every pending definition spare that path. If
  the loop runs to its end, the name of the definition holds a truthy value after it. The
  step of the definition itself leaves objects along the whole path and, when the
  definition has no payload and nothing was there, an empty object at its end. The loop
  writes neither to the tables nor to the queues of the classes and interfaces, and the two
  passes that follow it leave every class and interface that was processed before
  processed.\<close>

theorem assumed_definitions_resolved:
  assumes "a \<in> set q" and "arg_name a = Some n"
    and "passable (Obj Plain (window c)) (split_dot n)"
    and "\<forall>b \<in> set q. spares b (split_dot n)"
    and "fst (assumeFor q c) = None"
  shows "(\<exists>v. definitionGet (snd (assumeFor q c)) (Some n) = Inr v \<and> truthy v)
       \<and> objects_along (Obj Plain (window (snd (assumeOne c a)))) (butlast (split_dot n))
       \<and> (\<not> truthy (arg_definition a) \<and> (\<forall>v. definitionGet c (Some n) = Inr v \<longrightarrow> \<not> truthy v)
            \<longrightarrow> definitionGet (snd (assumeOne c a)) (Some n) = Inr (Obj Plain []))
       \<and> untouched c (snd (assumeFor q c))
       \<and> stays c (snd (classProcessDeferred cfg (snd (assumeFor q c))))
       \<and> stays c (snd (interfaceProcessDeferred cfg (snd (classProcessDeferred cfg (snd (assumeFor q c))))))"
proof -
  have loop: "\<exists>v. definitionGet (snd (assumeFor q c)) (Some n) = Inr v \<and> truthy v"
    using assumeFor_resolves[OF assms(5,1,2,4,3)] by (simp add: resolved_def definitionGet_def)
  note step = assumed_definition_step[OF assms(2,3)]
  have frame: "untouched c (snd (assumeFor q c))" by (rule untouched_assumeFor)
  then have s0: "stays c (snd (assumeFor q c))" by (simp add: untouched_def stays_def)
  have s1: "stays c (snd (classProcessDeferred cfg (snd (assumeFor q c))))"
    using s0 by (rule stays_classProcessDeferred)
  have s2: "stays c (snd (interfaceProcessDeferred cfg
                            (snd (classProcessDeferred cfg (snd (assumeFor q c))))))"
    using s1 by (rule stays_interfaceProcessDeferred)
  show ?thesis using loop step frame s1 s2 by blast
qed

theorem assumed_definitions_resolved_instance:
  "view_list \<in> set (definitionsToProcess list_and_model)
   \<and> arg_name view_list = Some ''app.view.list''
   \<and> passable (Obj Plain (window list_and_model)) (split_dot ''app.view.list'')
   \<and> (\<forall>b \<in> set (definitionsToProcess list_and_model). spares b (split_dot ''app.view.list''))
   \<and> fst (assumeFor (definitionsToProcess list_and_model) list_and_model) = None
   \<and> \<not> truthy (arg_definition view_list)
   \<and> (\<forall>v. definitionGet list_and_model (Some ''app.view.list'') = Inr v \<longrightarrow> \<not> truthy v)
   \<and> (\<exists>v. definitionGet (snd (assumeFor (definitionsToProcess list_and_model) list_and_model))
              (Some ''app.view.list'') = Inr v \<and> truthy v)
   \<and> definitionGet (snd (assumeOne list_and_model view_list)) (Some ''app.view.list'')
       = Inr (Obj Plain [])
   \<and> classes (snd (assumeFor (definitionsToProcess list_and_model) list_and_model))
        ''cycligent.Script'' = Some True"
proof -
  have q: "definitionsToProcess list_and_model = [view_list, model]"
    by (simp add: list_and_model_eq)
  have h: "view_list \<in> set [view_list, model]"
    "arg_name view_list = Some ''app.view.list''"
    "passable (Obj Plain (window list_and_model)) (split_dot ''app.view.list'')"
    "\<forall>b \<in> set [view_list, model]. spares b (split_dot ''app.view.list'')"
    "fst (assumeFor [view_list, model] list_and_model) = None"
    unfolding list_and_model_assumed
    by (simp_all add: list_and_model_eq view_list_def model_def define_args_def spares_def
        app_paths boot_registry_def del: split_dot.simps)
  have before: "\<not> truthy (arg_definition view_list)"
    "\<forall>v. definitionGet list_and_model (Some ''app.view.list'') = Inr v \<longrightarrow> \<not> truthy v"
    by (simp_all add: list_and_model_eq view_list_def define_args_def definitionGet_def app_paths
        get_prop_def boot_registry_def del: split_dot.simps)
  have flag: "classes list_and_model ''cycligent.Script'' = Some True"
    by (simp add: list_and_model_eq boot_registry_def)
  show ?thesis
    unfolding q
    using assumed_definitions_resolved[OF h, of the_config] h before flag
    by (simp add: untouched_def)
qed

lemma list_first_step:
  "definitionGet (snd (assumeOne list_and_view view_list)) (Some ''app.view.list'')
     = Inr (Obj Plain [])"
  unfolding list_and_view_eq
  by (simp add: assumeOne_def andThen_def view_list_def define_args_def app_paths
      definitionProcess2_def definitionGet_def get_prop_def boot_registry_def Let_def
      del: split_dot.simps)

text \<open>Claim C8. The definition \<^verbatim>\<open>app.view.list\<close> is pending when all scripts have loaded, and
  so is \<^verbatim>\<open>app.view\<close>, defined after it with an object as its payload. The loop of
  \<^verbatim>\<open>_createAssumedDefinitions\<close> runs to its end without an exception. Its first step makes
  \<^verbatim>\<open>app\<close>, \<^verbatim>\<open>app.view\<close> and \<^verbatim>\<open>app.view.list\<close> empty objects; its second step stores the
  payload of \<^verbatim>\<open>app.view\<close> over the object that held \<^verbatim>\<open>list\<close>. After the loop
  \<^verbatim>\<open>app.view.list\<close> is \<^verbatim>\<open>undefined\<close>: the pending definition has not been resolved to a
  value.\<close>

theorem assumed_definition_overwritten:
  "definitionsToProcess list_and_view = [view_list, view]
   \<and> fst (assumeFor (definitionsToProcess list_and_view) list_and_view) = None
   \<and> definitionGet (snd (assumeOne list_and_view view_list)) (Some ''app.view.list'')
        = Inr (Obj Plain [])
   \<and> definitionGet (snd (assumeFor (definitionsToProcess list_and_view) list_and_view))
        (Some ''app.view.list'') = Inr Undefined
   \<and> definitionGet (snd (assumeFor (definitionsToProcess list_and_view) list_and_view))
        (Some ''app.view'') = Inr (Obj Plain [(''title'', Str ''Orders'')])"
proof -
  have q: "definitionsToProcess list_and_view = [view_list, view]"
    by (simp add: list_and_view_eq)
  show ?thesis
    unfolding q list_and_view_assumed list_first_step
    by (simp add: definitionGet_def app_paths get_prop_def del: split_dot.simps)
qed

end
